theory Spec2Isabelle
  imports Complex_Main "HOL-Library.AList" "HOL-Library.Sublist"
begin

section \<open>The CPU-profile call-stack analyzer (scripts/analyze-cpu-profile.js)\<close>

text \<open>
  A shallow embedding of the analysis core of \<^verbatim>\<open>analyze-cpu-profile.js\<close>: the
  adjacency index (\<^verbatim>\<open>buildNodeTree\<close>), the ancestor walk (\<^verbatim>\<open>getCallStackUp\<close>), the
  descendant collection (\<^verbatim>\<open>findDescendants\<close>, \<^verbatim>\<open>collectDescendants\<close>), the sample pass
  (\<^verbatim>\<open>buildCallStack\<close>), the aggregation (\<^verbatim>\<open>aggregateCallStacks\<close>) and the numbers the
  report prints for each aggregated entry (\<^verbatim>\<open>formatStackEntry\<close>, \<^verbatim>\<open>analyzeProfile\<close>).

  Node ids, sample ids and time deltas are JavaScript numbers read from JSON; they are
  modelled as \<open>int\<close> (negative ids are possible and the walk tests for them).
  Printing, argument parsing and file reading are not modelled.
\<close>

subsection \<open>Profile model\<close>

text \<open>
  The source reads every optional field through \<^verbatim>\<open>x || default\<close>, which treats a
  missing field, the empty string and the number 0 alike. A missing \<^verbatim>\<open>callFrame\<close>,
  \<^verbatim>\<open>functionName\<close> or \<^verbatim>\<open>url\<close> is therefore the empty string here, a missing
  \<^verbatim>\<open>lineNumber\<close> or \<^verbatim>\<open>columnNumber\<close> is 0, and a missing \<^verbatim>\<open>children\<close>,
  \<^verbatim>\<open>samples\<close> or \<^verbatim>\<open>timeDeltas\<close> is the empty list.
\<close>

record CallFrame =
  functionName :: string
  url :: string
  lineNumber :: int
  columnNumber :: int

record ProfileNode =
  callFrame :: CallFrame
  hitCount :: int
  children :: "int list"

record Profile =
  nodes :: "ProfileNode list"
  samples :: "int list"
  timeDeltas :: "int list"

text \<open>
  A frame pushed by \<^verbatim>\<open>getCallStackUp\<close>. Its \<^verbatim>\<open>line\<close> and \<^verbatim>\<open>column\<close> are
  \<^verbatim>\<open>callFrame.lineNumber || ''\<close>: \<open>None\<close> stands for the empty string. The source's
  field \<^verbatim>\<open>function\<close> is \<open>func\<close> here.
\<close>

record CallStackFrame =
  index :: int
  func :: string
  furl :: string
  line :: "int option"
  column :: "int option"

text \<open>One element of the list \<^verbatim>\<open>buildCallStack\<close> returns.\<close>

record CallStack =
  stack :: "CallStackFrame list"
  timeDelta :: int
  sampleIndex :: nat

text \<open>One value of the \<^verbatim>\<open>stackMap\<close> of \<^verbatim>\<open>aggregateCallStacks\<close>.\<close>

record AggregatedStackEntry =
  callers :: "CallStackFrame list"
  count :: nat
  totalTime :: int
  entry_samples :: "int list"

subsection \<open>JavaScript maps\<close>

text \<open>
  A \<^verbatim>\<open>Map\<close> is an association list in insertion order with one pair for each key:
  \<^verbatim>\<open>get\<close> is \<^const>\<open>map_of\<close>, and \<^verbatim>\<open>set\<close> is \<^const>\<open>AList.update\<close>, which replaces
  the value of a present key in place and appends a new key at the end.
\<close>

type_synonym ('k, 'v) js_map = "('k \<times> 'v) list"

definition map_has :: "('k, 'v) js_map \<Rightarrow> 'k \<Rightarrow> bool" where
  "map_has m k = (map_of m k \<noteq> None)"

text \<open>\<^verbatim>\<open>map.get(k) || []\<close>\<close>

definition map_get_list :: "('k, 'v list) js_map \<Rightarrow> 'k \<Rightarrow> 'v list" where
  "map_get_list m k = (case map_of m k of Some vs \<Rightarrow> vs | None \<Rightarrow> [])"

text \<open>
  \<^verbatim>\<open>if (!m.has(k)) m.set(k, []); m.get(k).push(v);\<close> The array stored under the key is
  mutated in place, so the key keeps its position.
\<close>

definition map_push :: "('k, 'v list) js_map \<Rightarrow> 'k \<Rightarrow> 'v \<Rightarrow> ('k, 'v list) js_map" where
  "map_push m k v =
     (let m1 = (if \<not> map_has m k then AList.update k [] m else m)
      in AList.update k (map_get_list m1 k @ [v]) m1)"

subsection \<open>buildNodeTree\<close>

text \<open>The body of the inner loop, for node \<open>i\<close> and one \<open>childIndex\<close> of its children.\<close>

definition add_edge ::
  "int \<Rightarrow> int \<Rightarrow> (int, int list) js_map \<times> (int, int list) js_map \<Rightarrow>
   (int, int list) js_map \<times> (int, int list) js_map" where
  "add_edge i childIndex maps =
     (case maps of (parentMap, childMap) \<Rightarrow>
        (map_push parentMap childIndex i, map_push childMap i childIndex))"

text \<open>Returns \<open>(parentMap, childMap)\<close>.\<close>

definition buildNodeTree ::
  "ProfileNode list \<Rightarrow> (int, int list) js_map \<times> (int, int list) js_map" where
  "buildNodeTree ns =
     fold (\<lambda>i maps. fold (add_edge (int i)) (children (ns ! i)) maps) [0..<length ns] ([], [])"

subsection \<open>getCallStackUp\<close>

text \<open>The frame pushed for an in-range node index.\<close>

definition frame_of :: "ProfileNode list \<Rightarrow> int \<Rightarrow> CallStackFrame" where
  "frame_of ns current =
     (let cf = callFrame (ns ! nat current)
      in \<lparr> index = current,
           func = (if functionName cf = [] then ''(anonymous)'' else functionName cf),
           furl = url cf,
           line = (if lineNumber cf = 0 then None else Some (lineNumber cf)),
           column = (if columnNumber cf = 0 then None else Some (columnNumber cf)) \<rparr>)"

text \<open>
  The \<^verbatim>\<open>while\<close> loop, with its variables \<^verbatim>\<open>current\<close>, \<^verbatim>\<open>depth\<close>, \<^verbatim>\<open>visited\<close> and
  \<^verbatim>\<open>stack\<close> as arguments. \<^verbatim>\<open>current\<close> is always a number in this model, so the test
  \<^verbatim>\<open>current !== undefined\<close> is true. The frame is pushed only under the bounds check
  \<^verbatim>\<open>current < nodes.length\<close>; the parents are looked up in either case.
\<close>

function getCallStackUp_loop ::
  "ProfileNode list \<Rightarrow> (int, int list) js_map \<Rightarrow> nat \<Rightarrow> int \<Rightarrow> nat \<Rightarrow> int set \<Rightarrow>
   CallStackFrame list \<Rightarrow> CallStackFrame list" where
  "getCallStackUp_loop ns parentMap maxDepth current depth visited stk =
     (if current \<ge> 0 \<and> depth < maxDepth \<and> current \<notin> visited
      then
        (let visited' = insert current visited;
             stk' = (if current < int (length ns) then stk @ [frame_of ns current] else stk)
         in (case map_of parentMap current of
               Some (p # ps) \<Rightarrow> getCallStackUp_loop ns parentMap maxDepth p (depth + 1) visited' stk'
             | _ \<Rightarrow> stk'))
      else stk)"
  by pat_completeness auto
termination
  by (relation "measure (\<lambda>(ns, parentMap, maxDepth, current, depth, visited, stk). maxDepth - depth)") auto

definition getCallStackUp ::
  "ProfileNode list \<Rightarrow> (int, int list) js_map \<Rightarrow> int \<Rightarrow> nat \<Rightarrow> CallStackFrame list" where
  "getCallStackUp ns parentMap nodeIndex maxDepth =
     getCallStackUp_loop ns parentMap maxDepth nodeIndex 0 {} []"

text \<open>The default value of the parameter \<^verbatim>\<open>maxDepth\<close>.\<close>

definition defaultMaxDepth :: nat where
  "defaultMaxDepth = 20"

subsection \<open>findDescendants and collectDescendants\<close>

text \<open>Every id a child map lists as a child; the recursion below never leaves this finite set.\<close>

definition listed_children :: "(int, int list) js_map \<Rightarrow> int set" where
  "listed_children m = (\<Union>(k, vs) \<in> set m. set vs)"

text \<open>
  \<^verbatim>\<open>collectDescendants\<close> (in \<^verbatim>\<open>analyzeChildren\<close>) and \<^verbatim>\<open>findDescendants\<close> (in
  \<^verbatim>\<open>buildCallStack\<close>) are the same recursive closure over a shared mutable set; the set
  is passed in and returned here. \<open>for_children\<close> is the \<^verbatim>\<open>for (const child of children)\<close>
  loop of its body.

  The closure calls itself once for each level of the graph below the node. This first
  definition is the recursion by itself, on a call stack without a limit;
  \<open>collectDescendants_stack\<close> below is the same recursion on a call stack with a limit,
  where the source raises \<^verbatim>\<open>RangeError\<close>.
\<close>

function collectDescendants :: "(int, int list) js_map \<Rightarrow> int \<Rightarrow> int set \<Rightarrow> int set"
  and for_children :: "(int, int list) js_map \<Rightarrow> int list \<Rightarrow> int set \<Rightarrow> int set" where
  "collectDescendants childMap nodeIndex descendants =
     for_children childMap (map_get_list childMap nodeIndex) descendants"
| "for_children childMap [] descendants = descendants"
| "for_children childMap (child # rest) descendants =
     (if child \<notin> descendants
      then for_children childMap rest
             (collectDescendants childMap child (insert child descendants))
      else for_children childMap rest descendants)"
  by pat_completeness auto

lemma map_get_list_listed: "set (map_get_list m k) \<subseteq> listed_children m"
proof (cases "map_of m k")
  case None
  then show ?thesis by (simp add: map_get_list_def)
next
  case (Some vs)
  then have "(k, vs) \<in> set m" by (rule map_of_SomeD)
  then show ?thesis using Some by (auto simp: map_get_list_def listed_children_def)
qed

lemma finite_listed_children: "finite (listed_children m)"
  by (auto simp: listed_children_def)

lemma collect_grows_dom:
  "collectDescendants_for_children_dom (Inl (m, n, D)) \<Longrightarrow> D \<subseteq> collectDescendants m n D"
  "collectDescendants_for_children_dom (Inr (m, cs, D)) \<Longrightarrow> D \<subseteq> for_children m cs D"
proof (induction m n D and m cs D rule: collectDescendants_for_children.pinduct)
  case (1 childMap nodeIndex descendants)
  then show ?case by (simp add: collectDescendants.psimps)
next
  case (2 childMap descendants)
  then show ?case by (simp add: for_children.psimps)
next
  case (3 childMap child rest descendants)
  then show ?case by (auto simp add: for_children.psimps)
qed

text \<open>
  Termination: the ids still outside the set (among the listed children and the ids
  waiting in the loop) get fewer with each new id, and the list of waiting ids gets
  shorter otherwise.
\<close>

termination collectDescendants
proof (relation
    "(\<lambda>x. case x of Inl (m, n, D) \<Rightarrow> card (listed_children m - D)
                  | Inr (m, cs, D) \<Rightarrow> card ((listed_children m \<union> set cs) - D))
     <*mlex*>
     measure (\<lambda>x. case x of Inl (m, n, D) \<Rightarrow> Suc (length (map_get_list m n))
                          | Inr (m, cs, D) \<Rightarrow> length cs)", goal_cases)
  case 1
  then show ?case by (simp add: wf_mlex)
next
  case (2 childMap nodeIndex descendants)
  have "listed_children childMap \<union> set (map_get_list childMap nodeIndex) = listed_children childMap"
    using map_get_list_listed by blast
  then show ?case by (simp add: mlex_iff)
next
  case (3 childMap child rest descendants)
  have "listed_children childMap - insert child descendants
          \<subset> (listed_children childMap \<union> set (child # rest)) - descendants"
    using 3 by auto
  then have "card (listed_children childMap - insert child descendants)
          < card ((listed_children childMap \<union> set (child # rest)) - descendants)"
    by (intro psubset_card_mono) (auto simp: finite_listed_children)
  then show ?case by (simp add: mlex_iff)
next
  case (4 childMap child rest descendants)
  have "descendants \<subseteq> collectDescendants childMap child (insert child descendants)"
    using collect_grows_dom(1)[OF 4(2)] by auto
  then have "(listed_children childMap \<union> set rest)
               - collectDescendants childMap child (insert child descendants)
          \<subseteq> (listed_children childMap \<union> set (child # rest)) - descendants"
    by auto
  then have "card ((listed_children childMap \<union> set rest)
               - collectDescendants childMap child (insert child descendants))
          \<le> card ((listed_children childMap \<union> set (child # rest)) - descendants)"
    by (intro card_mono) (auto simp: finite_listed_children)
  then show ?case by (auto simp add: mlex_iff)
next
  case (5 childMap child rest descendants)
  have "card ((listed_children childMap \<union> set rest) - descendants)
          \<le> card ((listed_children childMap \<union> set (child # rest)) - descendants)"
    by (intro card_mono) (auto simp: finite_listed_children)
  then show ?case by (auto simp add: mlex_iff)
qed

text \<open>
  The same closure on a JavaScript call stack. The first argument is the number of
  activations of the closure the call stack still has room for; the engine decides it,
  so it is a parameter. A call with no room left raises \<^verbatim>\<open>RangeError\<close> (maximum call
  stack size exceeded), which nothing in the source catches: it is passed on through the
  loop and every enclosing activation.
\<close>

datatype js_error = RangeError

fun collectDescendants_stack ::
    "nat \<Rightarrow> (int, int list) js_map \<Rightarrow> int \<Rightarrow> int set \<Rightarrow> js_error + int set"
  and for_children_stack ::
    "nat \<Rightarrow> (int, int list) js_map \<Rightarrow> int list \<Rightarrow> int set \<Rightarrow> js_error + int set" where
  "collectDescendants_stack 0 childMap nodeIndex descendants = Inl RangeError"
| "collectDescendants_stack (Suc frames) childMap nodeIndex descendants =
     for_children_stack frames childMap (map_get_list childMap nodeIndex) descendants"
| "for_children_stack frames childMap [] descendants = Inr descendants"
| "for_children_stack frames childMap (child # rest) descendants =
     (if child \<notin> descendants
      then (case collectDescendants_stack frames childMap child (insert child descendants) of
              Inl e \<Rightarrow> Inl e
            | Inr descendants' \<Rightarrow> for_children_stack frames childMap rest descendants')
      else for_children_stack frames childMap rest descendants)"

subsection \<open>buildCallStack\<close>

text \<open>
  \<^verbatim>\<open>findDescendants\<close> has the body of \<^verbatim>\<open>collectDescendants\<close>. It is taken on a call
  stack without a limit here; the call stacks \<^verbatim>\<open>buildCallStack\<close> returns do not depend on
  the set it computes (lemma \<open>sample_step_eq\<close> below).
\<close>

definition findDescendants :: "(int, int list) js_map \<Rightarrow> int \<Rightarrow> int set \<Rightarrow> int set" where
  "findDescendants childMap nodeIndex targetDescendants =
     collectDescendants childMap nodeIndex targetDescendants"

text \<open>\<^verbatim>\<open>Array.prototype.findIndex\<close>: the first position where the test holds, or \<open>-1\<close>.\<close>

fun findIndex :: "('a \<Rightarrow> bool) \<Rightarrow> 'a list \<Rightarrow> int" where
  "findIndex P [] = -1"
| "findIndex P (x # xs) =
     (if P x then 0 else (let r = findIndex P xs in if r = -1 then -1 else r + 1))"

text \<open>\<^verbatim>\<open>timeDeltas[i] || 0\<close>: a read past the end is \<^verbatim>\<open>undefined\<close>, hence 0.\<close>

definition timeDelta_at :: "int list \<Rightarrow> nat \<Rightarrow> int" where
  "timeDelta_at ds i = (if i < length ds then ds ! i else 0)"

text \<open>
  The body of the sample loop for sample \<open>i\<close>: \<open>callStacks\<close> is returned unchanged where
  the source says \<^verbatim>\<open>continue\<close>.
\<close>

definition sample_step ::
  "ProfileNode list \<Rightarrow> (int, int list) js_map \<Rightarrow> int set \<Rightarrow> int \<Rightarrow> int list \<Rightarrow> int list \<Rightarrow>
   nat \<Rightarrow> CallStack list \<Rightarrow> CallStack list" where
  "sample_step ns parentMap targetDescendants targetNodeIndex smpls deltas i callStacks =
     (let sampleNodeIndex = smpls ! i
      in if sampleNodeIndex \<notin> targetDescendants \<and>
            \<not> list_ex (\<lambda>frame. index frame = targetNodeIndex)
                 (getCallStackUp ns parentMap sampleNodeIndex defaultMaxDepth)
         then callStacks
         else
           (let fullStack = getCallStackUp ns parentMap sampleNodeIndex defaultMaxDepth;
                targetIndex = findIndex (\<lambda>frame. index frame = targetNodeIndex) fullStack
            in if targetIndex = -1 then callStacks
               else
                 (let relevantStack = rev (take (nat (targetIndex + 1)) fullStack)
                  in if length relevantStack > 0
                     then callStacks @
                            [\<lparr> stack = relevantStack, timeDelta = timeDelta_at deltas i,
                               sampleIndex = i \<rparr>]
                     else callStacks)))"

definition buildCallStack :: "Profile \<Rightarrow> int \<Rightarrow> CallStack list" where
  "buildCallStack profile targetNodeIndex =
     (case buildNodeTree (nodes profile) of (parentMap, childMap) \<Rightarrow>
        (let targetDescendants = findDescendants childMap targetNodeIndex {targetNodeIndex}
         in fold (sample_step (nodes profile) parentMap targetDescendants targetNodeIndex
                    (samples profile) (timeDeltas profile))
              [0..<length (samples profile)] []))"

subsection \<open>aggregateCallStacks\<close>

text \<open>Decimal digits of a number, as a template literal prints an integer.\<close>

fun show_nat :: "nat \<Rightarrow> string" where
  "show_nat n =
     (if n < 10 then [char_of (48 + n)] else show_nat (n div 10) @ [char_of (48 + n mod 10)])"

definition show_int :: "int \<Rightarrow> string" where
  "show_int k = (if k < 0 then CHR ''-'' # show_nat (nat (- k)) else show_nat (nat k))"

text \<open>\<^verbatim>\<open>f.url ? f.url.split('/').pop() : '(native)'\<close>: what follows the last slash.\<close>

definition urlShort :: "string \<Rightarrow> string" where
  "urlShort u = (if u = [] then ''(native)'' else rev (takeWhile (\<lambda>c. c \<noteq> CHR ''/'') (rev u)))"

text \<open>One frame of the key: \<^verbatim>\<open>`${f.function}@${urlShort}:${f.line || '?'}`\<close>.\<close>

definition frame_key :: "CallStackFrame \<Rightarrow> string" where
  "frame_key f =
     func f @ ''@'' @ urlShort (furl f) @ '':'' @
     (case line f of None \<Rightarrow> ''?'' | Some n \<Rightarrow> show_int n)"

fun join :: "string \<Rightarrow> string list \<Rightarrow> string" where
  "join sep [] = []"
| "join sep [x] = x"
| "join sep (x # y # ys) = x @ sep @ join sep (y # ys)"

text \<open>\<^verbatim>\<open>stack.slice(0, -1)\<close> is \<^const>\<open>butlast\<close>.\<close>

definition stackKey_of :: "CallStackFrame list \<Rightarrow> string" where
  "stackKey_of stk = join '' -> '' (map frame_key (butlast stk))"

text \<open>
  The body of the loop over \<open>callStacks\<close>. Where the key is new, the entry updated is the
  fresh one the source has just set; \<^const>\<open>AList.update\<close> appends it in that case and
  keeps the position of a key already there (the entry object is mutated in place).
\<close>

definition aggregate_step ::
  "CallStack \<Rightarrow> (string, AggregatedStackEntry) js_map \<Rightarrow> (string, AggregatedStackEntry) js_map" where
  "aggregate_step cs stackMap =
     (let stackKey = stackKey_of (stack cs);
          entry = (case map_of stackMap stackKey of
                     None \<Rightarrow> \<lparr> callers = butlast (stack cs), count = 0, totalTime = 0,
                               entry_samples = [] \<rparr>
                   | Some e \<Rightarrow> e)
      in AList.update stackKey
           (entry \<lparr> count := count entry + 1,
                    totalTime := totalTime entry + timeDelta cs,
                    entry_samples := entry_samples entry @ [timeDelta cs] \<rparr>)
           stackMap)"

text \<open>The comparator \<^verbatim>\<open>(a, b) => b.count - a.count || b.totalTime - a.totalTime\<close>.\<close>

definition compare_entries :: "AggregatedStackEntry \<Rightarrow> AggregatedStackEntry \<Rightarrow> int" where
  "compare_entries a b =
     (if int (count b) - int (count a) \<noteq> 0 then int (count b) - int (count a)
      else totalTime b - totalTime a)"

text \<open>
  \<^verbatim>\<open>Array.prototype.sort\<close> is stable: \<open>a\<close> stays before a later \<open>b\<close> unless the
  comparator is positive on \<open>(a, b)\<close>. Insertion from the right does that.
\<close>

fun insert_by :: "('a \<Rightarrow> 'a \<Rightarrow> int) \<Rightarrow> 'a \<Rightarrow> 'a list \<Rightarrow> 'a list" where
  "insert_by cmp a [] = [a]"
| "insert_by cmp a (b # bs) = (if cmp a b \<le> 0 then a # b # bs else b # insert_by cmp a bs)"

definition sort_by :: "('a \<Rightarrow> 'a \<Rightarrow> int) \<Rightarrow> 'a list \<Rightarrow> 'a list" where
  "sort_by cmp xs = foldr (insert_by cmp) xs []"

definition stackMap_of :: "CallStack list \<Rightarrow> (string, AggregatedStackEntry) js_map" where
  "stackMap_of callStacks = fold aggregate_step callStacks []"

definition aggregateCallStacks :: "CallStack list \<Rightarrow> AggregatedStackEntry list" where
  "aggregateCallStacks callStacks = sort_by compare_entries (map snd (stackMap_of callStacks))"

subsection \<open>The numbers of the caller report\<close>

text \<open>\<^verbatim>\<open>aggregated[0]?.count || 1\<close> in \<^verbatim>\<open>analyzeProfile\<close>.\<close>

definition maxCount_of :: "AggregatedStackEntry list \<Rightarrow> nat" where
  "maxCount_of aggregated =
     (case aggregated of [] \<Rightarrow> 1 | e # es \<Rightarrow> if count e = 0 then 1 else count e)"

text \<open>
  \<^verbatim>\<open>(entry.count / maxCount) * 100\<close> in \<^verbatim>\<open>formatStackEntry\<close>, as an exact fraction; the
  rounding of \<^verbatim>\<open>toFixed(2)\<close> to two decimals is not modelled.
\<close>

definition percentage :: "AggregatedStackEntry \<Rightarrow> nat \<Rightarrow> rat" where
  "percentage entry maxCount = (of_nat (count entry) / of_nat maxCount) * 100"

text \<open>
  For one target of \<^verbatim>\<open>analyzeProfile\<close>: the entries printed (the first
  \<^verbatim>\<open>Math.min(topN, aggregated.length)\<close>), each with the percentage printed for it.
  Without call stacks the source prints no entry and goes on to the next target; the
  list is empty then.
\<close>

definition reported_entries :: "Profile \<Rightarrow> int \<Rightarrow> int \<Rightarrow> (AggregatedStackEntry \<times> rat) list" where
  "reported_entries profile targetNodeIndex topN =
     (let aggregated = aggregateCallStacks (buildCallStack profile targetNodeIndex);
          maxCount = maxCount_of aggregated
      in map (\<lambda>e. (e, percentage e maxCount))
           (take (nat (min topN (int (length aggregated)))) aggregated))"

text \<open>\<^verbatim>\<open>aggregated.reduce((sum, e) => sum + e.count, 0)\<close>, the report's total samples.\<close>

definition totalSamples :: "AggregatedStackEntry list \<Rightarrow> nat" where
  "totalSamples aggregated = fold (\<lambda>e sum. sum + count e) aggregated 0"

subsection \<open>analyzeChildren: the descendant set\<close>

text \<open>
  The set \<^verbatim>\<open>descendants\<close> after \<^verbatim>\<open>collectDescendants(targetNodeIndex)\<close>, or the
  \<^verbatim>\<open>RangeError\<close> raised instead, on a call stack with room for \<open>stackLimit\<close>
  activations of the closure.
\<close>

definition descendants_stack :: "nat \<Rightarrow> (int, int list) js_map \<Rightarrow> int \<Rightarrow> js_error + int set" where
  "descendants_stack stackLimit childMap targetNodeIndex =
     collectDescendants_stack stackLimit childMap targetNodeIndex {}"

text \<open>The same set on a call stack without a limit.\<close>

definition descendants_of :: "(int, int list) js_map \<Rightarrow> int \<Rightarrow> int set" where
  "descendants_of childMap targetNodeIndex = collectDescendants childMap targetNodeIndex {}"

subsection \<open>The invariant of an aggregated entry\<close>

definition entry_ok :: "AggregatedStackEntry \<Rightarrow> bool" where
  "entry_ok e = (count e = length (entry_samples e) \<and> totalTime e = sum_list (entry_samples e)
                 \<and> 1 \<le> count e)"

subsection \<open>Example profiles\<close>

definition example_node :: "string \<Rightarrow> int \<Rightarrow> int list \<Rightarrow> ProfileNode" where
  "example_node f h cs =
     \<lparr> callFrame = \<lparr> functionName = f, url = [], lineNumber = 0, columnNumber = 0 \<rparr>,
       hitCount = h, children = cs \<rparr>"

text \<open>The scenario profile: root (id 0, no hits), A (id 1) under root, B (id 2) under A.\<close>

definition scenario :: Profile where
  "scenario =
     \<lparr> nodes = [example_node ''root'' 0 [1], example_node ''A'' 2 [2], example_node ''B'' 3 []],
       samples = [1, 2, 2], timeDeltas = [100, 200, 300] \<rparr>"

text \<open>Two nodes with a self-reference and a cycle: 0 calls 0 and 1, and 1 calls 0.\<close>

definition cyclic_nodes :: "ProfileNode list" where
  "cyclic_nodes = [example_node ''f'' 1 [0, 1], example_node ''g'' 1 [0]]"

text \<open>One node whose children list names the out-of-range id 5.\<close>

definition dangling_nodes :: "ProfileNode list" where
  "dangling_nodes = [example_node ''r'' 1 [5]]"

text \<open>
  A chain of 22 nodes, \<open>0\<close> calling \<open>1\<close> calling \<open>2\<close> and so on down to \<open>21\<close>, with
  one sample at node 21; and the same nodes with the chain cut above node 2, which is a
  root there.
\<close>

definition chain_nodes :: "ProfileNode list" where
  "chain_nodes = map (\<lambda>i. example_node ''f'' 1 [int i + 1]) [0..<21] @ [example_node ''f'' 1 []]"

definition chain_profile :: Profile where
  "chain_profile = \<lparr> nodes = chain_nodes, samples = [21], timeDeltas = [7] \<rparr>"

definition cut_profile :: Profile where
  "cut_profile =
     \<lparr> nodes = chain_nodes[1 := example_node ''f'' 1 []], samples = [21], timeDeltas = [7] \<rparr>"

text \<open>One node whose children list names the negative id \<open>-1\<close>.\<close>

definition negative_child_nodes :: "ProfileNode list" where
  "negative_child_nodes = [example_node ''r'' 1 [- 1]]"

text \<open>A chain of \<open>k + 1\<close> nodes: \<open>0\<close> calls \<open>1\<close>, which calls \<open>2\<close>, and so on down to \<open>k\<close>.\<close>

definition chain_of :: "nat \<Rightarrow> ProfileNode list" where
  "chain_of k = map (\<lambda>i. example_node ''f'' 1 [int i + 1]) [0..<k] @ [example_node ''f'' 1 []]"

subsection \<open>Notions used in the proofs about the sample pass\<close>

text \<open>Whether the walk from a sample's node has a frame of the target.\<close>

definition target_in_walk :: "ProfileNode list \<Rightarrow> (int, int list) js_map \<Rightarrow> int \<Rightarrow> int \<Rightarrow> bool" where
  "target_in_walk ns parentMap targetNodeIndex sampleNodeIndex =
     (targetNodeIndex \<in> index ` set (getCallStackUp ns parentMap sampleNodeIndex defaultMaxDepth))"

text \<open>The \<^verbatim>\<open>relevantStack\<close> of a qualifying sample.\<close>

definition stack_for :: "ProfileNode list \<Rightarrow> (int, int list) js_map \<Rightarrow> int \<Rightarrow> int \<Rightarrow> CallStackFrame list" where
  "stack_for ns parentMap targetNodeIndex sampleNodeIndex =
     (let fullStack = getCallStackUp ns parentMap sampleNodeIndex defaultMaxDepth
      in rev (take (nat (findIndex (\<lambda>frame. index frame = targetNodeIndex) fullStack + 1)) fullStack))"

subsection \<open>Notions used in the proofs about the walk\<close>

text \<open>\<^verbatim>\<open>parents[0]\<close> where \<^verbatim>\<open>parents && parents.length > 0\<close>.\<close>

definition first_parent :: "(int, int list) js_map \<Rightarrow> int \<Rightarrow> int option" where
  "first_parent parentMap current =
     (case map_of parentMap current of Some (p # ps) \<Rightarrow> Some p | _ \<Rightarrow> None)"

text \<open>The conditional push of the loop body.\<close>

definition push_frame :: "ProfileNode list \<Rightarrow> int \<Rightarrow> CallStackFrame list \<Rightarrow> CallStackFrame list" where
  "push_frame ns current stk = (if current < int (length ns) then stk @ [frame_of ns current] else stk)"

text \<open>The steps the walk can take: from an id to its first recorded parent.\<close>

definition first_parent_rel :: "(int, int list) js_map \<Rightarrow> (int \<times> int) set" where
  "first_parent_rel parentMap = {(c, p). first_parent parentMap c = Some p}"

text \<open>The frames a walk adds from a given loop state.\<close>

definition walk_from :: "ProfileNode list \<Rightarrow> (int, int list) js_map \<Rightarrow> nat \<Rightarrow> int \<Rightarrow> nat \<Rightarrow> int set \<Rightarrow> CallStackFrame list" where
  "walk_from ns pm d cur depth vis = getCallStackUp_loop ns pm d cur depth vis []"

subsection \<open>Notions used in the proofs about the adjacency index\<close>

text \<open>The maps after the first \<open>k\<close> rounds of the outer loop of \<^verbatim>\<open>buildNodeTree\<close>.\<close>

definition build_upto ::
  "ProfileNode list \<Rightarrow> nat \<Rightarrow> (int, int list) js_map \<times> (int, int list) js_map" where
  "build_upto ns k =
     fold (\<lambda>i maps. fold (add_edge (int i)) (children (ns ! i)) maps) [0..<k] ([], [])"

text \<open>The child edges a child map records.\<close>

definition child_edges :: "(int, int list) js_map \<Rightarrow> (int \<times> int) set" where
  "child_edges childMap = {(a, b). b \<in> set (map_get_list childMap a)}"

subsection \<open>Notions used in the proofs about the ranking\<close>

text \<open>The comparator does not put \<open>b\<close> before \<open>a\<close>.\<close>

definition ranked_before :: "AggregatedStackEntry \<Rightarrow> AggregatedStackEntry \<Rightarrow> bool" where
  "ranked_before a b = (compare_entries a b \<le> 0)"

section \<open>Lemmas\<close>

subsection \<open>Sorting keeps the entries\<close>

lemma set_insert_by: "set (insert_by cmp a xs) = insert a (set xs)"
  by (induction xs) auto

lemma set_sort_by: "set (sort_by cmp xs) = set xs"
  unfolding sort_by_def by (induction xs) (auto simp: set_insert_by)



lemma length_insert_by: "length (insert_by cmp a xs) = Suc (length xs)"
  by (induction xs) auto

lemma length_sort_by: "length (sort_by cmp xs) = length xs"
  unfolding sort_by_def by (induction xs) (auto simp: length_insert_by)

subsection \<open>The entry invariant\<close>

lemma set_update_subset: "set (AList.update k v m) \<subseteq> insert (k, v) (set m)"
  by (induction m) auto

lemma aggregate_step_ok:
  assumes "\<forall>e \<in> snd ` set m. entry_ok e"
  shows "\<forall>e \<in> snd ` set (aggregate_step cs m). entry_ok e"
proof -
  let ?k = "stackKey_of (stack cs)"
  let ?fresh = "\<lparr> callers = butlast (stack cs), count = 0, totalTime = 0, entry_samples = [] \<rparr>"
  let ?entry = "case map_of m ?k of None \<Rightarrow> ?fresh | Some e \<Rightarrow> e"
  let ?new = "?entry \<lparr> count := count ?entry + 1, totalTime := totalTime ?entry + timeDelta cs,
                        entry_samples := entry_samples ?entry @ [timeDelta cs] \<rparr>"
  have new_ok: "entry_ok ?new"
  proof (cases "map_of m ?k")
    case None
    then show ?thesis by (simp add: entry_ok_def)
  next
    case (Some e)
    then have "(?k, e) \<in> set m" by (rule map_of_SomeD)
    then have "entry_ok e" using assms by force
    then show ?thesis using Some by (simp add: entry_ok_def)
  qed
  have "set (aggregate_step cs m) \<subseteq> insert (?k, ?new) (set m)"
    unfolding aggregate_step_def Let_def by (rule set_update_subset)
  then show ?thesis using new_ok assms by fastforce
qed

lemma fold_aggregate_ok:
  "\<forall>e \<in> snd ` set m. entry_ok e \<Longrightarrow> \<forall>e \<in> snd ` set (fold aggregate_step css m). entry_ok e"
proof (induction css arbitrary: m)
  case Nil
  then show ?case by simp
next
  case (Cons cs css)
  show ?case using Cons.IH[OF aggregate_step_ok[OF Cons.prems]] by simp
qed

subsection \<open>Counting\<close>






lemma totalSamples_sum: "totalSamples es = sum_list (map count es)"
proof -
  have "fold (\<lambda>e sum. sum + count e) es n = n + sum_list (map count es)" for n
    by (induction es arbitrary: n) auto
  then show ?thesis by (simp add: totalSamples_def)
qed

subsection \<open>findIndex\<close>

lemma findIndex_ge: "- 1 \<le> findIndex P xs"
  by (induction xs) (auto simp: Let_def)

lemma findIndex_none: "(findIndex P xs = - 1) = (\<not> list_ex P xs)"
proof (induction xs)
  case Nil
  then show ?case by simp
next
  case (Cons x xs)
  have "findIndex P xs + 1 \<noteq> - 1" using findIndex_ge[of P xs] by arith
  with Cons show ?case by (auto simp: Let_def)
qed

lemma findIndex_less: "findIndex P xs < int (length xs) \<or> xs = []"
  by (induction xs) (auto simp: Let_def)

lemma findIndex_nth:
  "list_ex P xs \<Longrightarrow> P (xs ! nat (findIndex P xs)) \<and> nat (findIndex P xs) < length xs"
proof (induction xs)
  case Nil
  then show ?case by simp
next
  case (Cons x xs)
  show ?case
  proof (cases "P x")
    case True
    then show ?thesis by simp
  next
    case False
    with Cons.prems have ex: "list_ex P xs" by simp
    then have ne: "findIndex P xs \<noteq> - 1" by (simp add: findIndex_none)
    with findIndex_ge[of P xs] have nonneg: "0 \<le> findIndex P xs" by arith
    then have "nat (findIndex P xs + 1) = Suc (nat (findIndex P xs))" by simp
    with Cons.IH[OF ex] False ne show ?thesis by (simp add: Let_def)
  qed
qed

subsection \<open>The sample pass\<close>

lemma list_ex_index: "list_ex (\<lambda>frame. index frame = t) xs = (t \<in> index ` set xs)"
  by (auto simp: list_ex_iff)

lemma sample_step_eq:
  "sample_step ns pm D t smpls deltas i acc =
     (if target_in_walk ns pm t (smpls ! i)
      then acc @ [\<lparr> stack = stack_for ns pm t (smpls ! i), timeDelta = timeDelta_at deltas i,
                     sampleIndex = i \<rparr>]
      else acc)"
proof (cases "target_in_walk ns pm t (smpls ! i)")
  case True
  let ?full = "getCallStackUp ns pm (smpls ! i) defaultMaxDepth"
  let ?P = "\<lambda>frame. index frame = t"
  from True have ex: "list_ex ?P ?full"
    by (simp add: target_in_walk_def list_ex_index)
  then have ne: "findIndex ?P ?full \<noteq> - 1" by (simp add: findIndex_none)
  with findIndex_ge[of ?P ?full] have nonneg: "0 \<le> findIndex ?P ?full" by arith
  from ex have "?full \<noteq> []" by auto
  with nonneg have "take (nat (findIndex ?P ?full + 1)) ?full \<noteq> []" by auto
  with True ex ne show ?thesis
    by (simp add: sample_step_def Let_def stack_for_def)
next
  case False
  let ?full = "getCallStackUp ns pm (smpls ! i) defaultMaxDepth"
  let ?P = "\<lambda>frame. index frame = t"
  from False have nex: "\<not> list_ex ?P ?full"
    by (simp add: target_in_walk_def list_ex_index)
  then have "findIndex ?P ?full = - 1" by (simp add: findIndex_none)
  with False nex show ?thesis
    by (simp add: sample_step_def Let_def)
qed

lemma fold_sample_step:
  "fold (sample_step ns pm D t smpls deltas) is acc =
     acc @ map (\<lambda>i. \<lparr> stack = stack_for ns pm t (smpls ! i), timeDelta = timeDelta_at deltas i,
                        sampleIndex = i \<rparr>)
             (filter (\<lambda>i. target_in_walk ns pm t (smpls ! i)) is)"
  by (induction "is" arbitrary: acc) (simp_all add: sample_step_eq)

lemma buildCallStack_eq:
  "buildCallStack profile t =
     map (\<lambda>i. \<lparr> stack = stack_for (nodes profile) (fst (buildNodeTree (nodes profile))) t (samples profile ! i),
                 timeDelta = timeDelta_at (timeDeltas profile) i, sampleIndex = i \<rparr>)
       (filter (\<lambda>i. target_in_walk (nodes profile) (fst (buildNodeTree (nodes profile))) t (samples profile ! i))
          [0..<length (samples profile)])"
  by (simp add: buildCallStack_def fold_sample_step split: prod.splits)

text \<open>
  The target is the first frame of every call stack, so \<^const>\<open>butlast\<close> in the
  aggregation drops the sample's own node, and the target only when it is that node.
\<close>

lemma stack_for_target_first:
  assumes "target_in_walk ns pm t s"
  shows "stack_for ns pm t s \<noteq> [] \<and> index (hd (stack_for ns pm t s)) = t"
proof -
  let ?full = "getCallStackUp ns pm s defaultMaxDepth"
  let ?P = "\<lambda>frame. index frame = t"
  let ?k = "nat (findIndex ?P ?full)"
  from assms have ex: "list_ex ?P ?full"
    by (simp add: target_in_walk_def list_ex_index)
  then have k: "?P (?full ! ?k)" "?k < length ?full"
    using findIndex_nth[of ?P ?full] by auto
  from ex have "findIndex ?P ?full \<noteq> - 1" by (simp add: findIndex_none)
  with findIndex_ge[of ?P ?full] have "0 \<le> findIndex ?P ?full" by arith
  then have suc: "nat (findIndex ?P ?full + 1) = Suc ?k" by simp
  have ne: "take (Suc ?k) ?full \<noteq> []" using k(2) by auto
  have "hd (rev (take (Suc ?k) ?full)) = last (take (Suc ?k) ?full)"
    using ne by (simp add: hd_rev)
  also have "\<dots> = ?full ! ?k"
    using k(2) by (simp add: take_Suc_conv_app_nth)
  finally show ?thesis using k(1) ne suc by (simp add: stack_for_def Let_def)
qed

lemma buildCallStack_target_first:
  "cs \<in> set (buildCallStack profile t) \<Longrightarrow> stack cs \<noteq> [] \<and> index (hd (stack cs)) = t"
  by (auto simp: buildCallStack_eq dest: stack_for_target_first)


subsection \<open>The adjacency index\<close>

lemma map_of_map_push: "map_of (map_push m k v) = (map_of m)(k \<mapsto> map_get_list m k @ [v])"
  by (cases "map_of m k")
     (simp_all add: map_push_def map_has_def map_get_list_def Let_def update_conv')

lemma map_get_list_push:
  "map_get_list (map_push m k v) k' = (if k' = k then map_get_list m k @ [v] else map_get_list m k')"
  by (simp add: map_get_list_def[of "map_push m k v"] map_of_map_push) (simp add: map_get_list_def)

lemma add_edge_fst: "fst (add_edge i c maps) = map_push (fst maps) c i"
  by (cases maps) (simp add: add_edge_def)

lemma add_edge_snd: "snd (add_edge i c maps) = map_push (snd maps) i c"
  by (cases maps) (simp add: add_edge_def)

lemma fold_add_edge_child:
  "map_get_list (snd (fold (add_edge i) cs maps)) a
     = map_get_list (snd maps) a @ (if a = i then cs else [])"
proof (induction cs arbitrary: maps)
  case Nil
  then show ?case by simp
next
  case (Cons c cs)
  show ?case
    by (simp add: Cons.IH add_edge_snd map_get_list_push)
qed

lemma fold_add_edge_parent:
  "set (map_get_list (fst (fold (add_edge i) cs maps)) c)
     = set (map_get_list (fst maps) c) \<union> (if c \<in> set cs then {i} else {})"
proof (induction cs arbitrary: maps)
  case Nil
  then show ?case by simp
next
  case (Cons c' cs)
  show ?case
    by (auto simp add: Cons.IH add_edge_fst map_get_list_push)
qed

lemma build_upto_Suc:
  "build_upto ns (Suc k) = fold (add_edge (int k)) (children (ns ! k)) (build_upto ns k)"
  by (simp add: build_upto_def)

lemma build_upto_child:
  "set (map_get_list (snd (build_upto ns k)) a)
     = {c. \<exists>i<k. a = int i \<and> c \<in> set (children (ns ! i))}"
proof (induction k)
  case 0
  then show ?case by (simp add: build_upto_def map_get_list_def)
next
  case (Suc k)
  show ?case
    unfolding build_upto_Suc fold_add_edge_child set_append Suc.IH
    by (auto simp: less_Suc_eq)
qed

lemma build_upto_parent:
  "set (map_get_list (fst (build_upto ns k)) c)
     = {a. \<exists>i<k. a = int i \<and> c \<in> set (children (ns ! i))}"
proof (induction k)
  case 0
  then show ?case by (simp add: build_upto_def map_get_list_def)
next
  case (Suc k)
  show ?case
    unfolding build_upto_Suc fold_add_edge_parent Suc.IH
    by (auto simp: less_Suc_eq)
qed

lemma buildNodeTree_upto: "buildNodeTree ns = build_upto ns (length ns)"
  by (simp add: buildNodeTree_def build_upto_def)

lemma index_bounds: "(\<exists>i<n. a = int i \<and> P i) = (0 \<le> a \<and> a < int n \<and> P (nat a))"
  by (metis nat_int nat_less_iff of_nat_0_le_iff int_nat_eq)

lemma buildNodeTree_child_set:
  "(c \<in> set (map_get_list (snd (buildNodeTree ns)) i))
     = (0 \<le> i \<and> i < int (length ns) \<and> c \<in> set (children (ns ! nat i)))"
  by (simp add: buildNodeTree_upto build_upto_child index_bounds)

lemma buildNodeTree_parent_set:
  "(i \<in> set (map_get_list (fst (buildNodeTree ns)) c))
     = (0 \<le> i \<and> i < int (length ns) \<and> c \<in> set (children (ns ! nat i)))"
  by (simp add: buildNodeTree_upto build_upto_parent index_bounds)

lemma buildNodeTree_children:
  "i < length ns \<Longrightarrow> map_get_list (snd (buildNodeTree ns)) (int i) = children (ns ! i)"
proof -
  have "k \<le> length ns \<Longrightarrow> map_get_list (snd (build_upto ns k)) (int i) = (if i < k then children (ns ! i) else [])" for k
  proof (induction k)
    case 0
    then show ?case by (simp add: build_upto_def map_get_list_def)
  next
    case (Suc k)
    then show ?case
      unfolding build_upto_Suc fold_add_edge_child by (auto simp: less_Suc_eq)
  qed
  from this[of "length ns"] show "i < length ns \<Longrightarrow> ?thesis"
    by (simp add: buildNodeTree_upto)
qed

subsection \<open>The ancestor walk\<close>

declare getCallStackUp_loop.simps [simp del]

lemma loop_unfold:
  "getCallStackUp_loop ns pm d cur depth vis stk =
     (if cur \<ge> 0 \<and> depth < d \<and> cur \<notin> vis
      then (case first_parent pm cur of
              Some p \<Rightarrow> getCallStackUp_loop ns pm d p (Suc depth) (insert cur vis) (push_frame ns cur stk)
            | None \<Rightarrow> push_frame ns cur stk)
      else stk)"
  by (subst getCallStackUp_loop.simps)
     (simp add: first_parent_def push_frame_def Let_def split: option.splits list.splits)

lemma loop_induct [case_names step]:
  fixes P :: "int \<Rightarrow> nat \<Rightarrow> int set \<Rightarrow> bool"
  assumes "\<And>cur depth vis.
     (\<And>p. cur \<ge> 0 \<Longrightarrow> depth < d \<Longrightarrow> cur \<notin> vis \<Longrightarrow> first_parent pm cur = Some p \<Longrightarrow>
        P p (Suc depth) (insert cur vis)) \<Longrightarrow> P cur depth vis"
  shows "P cur depth vis"
proof -
  have "pm' = pm \<Longrightarrow> d' = d \<Longrightarrow> P cur depth vis" for ns' :: "ProfileNode list" and pm' d' and stk :: "CallStackFrame list"
  proof (induction ns' pm' d' cur depth vis stk rule: getCallStackUp_loop.induct)
    case (1 ns' pm' d' cur depth vis stk)
    show ?case
    proof (rule assms)
      fix p
      assume c: "cur \<ge> 0" "depth < d" "cur \<notin> vis" and fp: "first_parent pm cur = Some p"
      from fp obtain ps where m: "map_of pm' cur = Some (p # ps)"
        using "1.prems" by (auto simp: first_parent_def split: option.splits list.splits)
      have cond: "0 \<le> cur \<and> depth < d' \<and> cur \<notin> vis" using c "1.prems" by simp
      from "1.IH"[OF cond refl refl m refl "1.prems"]
      show "P p (Suc depth) (insert cur vis)" by simp
    qed
  qed
  then show ?thesis by simp
qed

lemma loop_stop:
  "\<not> (cur \<ge> 0 \<and> depth < d \<and> cur \<notin> vis) \<Longrightarrow> getCallStackUp_loop ns pm d cur depth vis stk = stk"
  by (subst loop_unfold) auto

lemma loop_root:
  "cur \<ge> 0 \<Longrightarrow> depth < d \<Longrightarrow> cur \<notin> vis \<Longrightarrow> first_parent pm cur = None \<Longrightarrow>
     getCallStackUp_loop ns pm d cur depth vis stk = push_frame ns cur stk"
  by (subst loop_unfold) auto

lemma loop_step:
  "cur \<ge> 0 \<Longrightarrow> depth < d \<Longrightarrow> cur \<notin> vis \<Longrightarrow> first_parent pm cur = Some p \<Longrightarrow>
     getCallStackUp_loop ns pm d cur depth vis stk
       = getCallStackUp_loop ns pm d p (Suc depth) (insert cur vis) (push_frame ns cur stk)"
  by (subst loop_unfold) auto

lemma loop_cases [case_names stop root step]:
  fixes cur :: int and depth d :: nat
  obtains "\<not> (cur \<ge> 0 \<and> depth < d \<and> cur \<notin> vis)"
  | "cur \<ge> 0" "depth < d" "cur \<notin> vis" "first_parent pm cur = None"
  | p where "cur \<ge> 0" "depth < d" "cur \<notin> vis" "first_parent pm cur = Some p"
  by (cases "first_parent pm cur") auto

lemma push_frame_append: "push_frame ns cur stk = stk @ push_frame ns cur []"
  by (simp add: push_frame_def)

lemma loop_append_all:
  "\<forall>stk. getCallStackUp_loop ns pm d cur depth vis stk = stk @ getCallStackUp_loop ns pm d cur depth vis []"
proof (induction cur depth vis rule: loop_induct[where pm = pm and d = d])
  case (step cur depth vis)
  show ?case
  proof (cases rule: loop_cases[where cur = cur and depth = depth and d = d and vis = vis and pm = pm])
    case stop
    then show ?thesis by (simp add: loop_stop)
  next
    case root
    show ?thesis
    proof
      fix stk
      have "getCallStackUp_loop ns pm d cur depth vis stk = push_frame ns cur stk"
        using root by (rule loop_root)
      also have "\<dots> = stk @ push_frame ns cur []" by (rule push_frame_append)
      also have "push_frame ns cur [] = getCallStackUp_loop ns pm d cur depth vis []"
        using root by (rule loop_root[symmetric])
      finally show "getCallStackUp_loop ns pm d cur depth vis stk
              = stk @ getCallStackUp_loop ns pm d cur depth vis []" .
    qed
  next
    case (step p)
    note ih = step.IH[OF step, rule_format]
    show ?thesis
    proof
      fix stk
      have "getCallStackUp_loop ns pm d cur depth vis stk
              = getCallStackUp_loop ns pm d p (Suc depth) (insert cur vis) (push_frame ns cur stk)"
        using step by (rule loop_step)
      also have "\<dots> = push_frame ns cur stk @ getCallStackUp_loop ns pm d p (Suc depth) (insert cur vis) []"
        by (rule ih)
      also have "\<dots> = stk @ (push_frame ns cur [] @ getCallStackUp_loop ns pm d p (Suc depth) (insert cur vis) [])"
        by (subst push_frame_append) simp
      also have "push_frame ns cur [] @ getCallStackUp_loop ns pm d p (Suc depth) (insert cur vis) []
              = getCallStackUp_loop ns pm d p (Suc depth) (insert cur vis) (push_frame ns cur [])"
        by (rule ih[symmetric])
      also have "\<dots> = getCallStackUp_loop ns pm d cur depth vis []"
        using step by (rule loop_step[symmetric])
      finally show "getCallStackUp_loop ns pm d cur depth vis stk
              = stk @ getCallStackUp_loop ns pm d cur depth vis []" .
    qed
  qed
qed

lemma walk_stop:
  "\<not> (cur \<ge> 0 \<and> depth < d \<and> cur \<notin> vis) \<Longrightarrow> walk_from ns pm d cur depth vis = []"
  by (simp add: walk_from_def loop_stop)

lemma walk_root:
  "cur \<ge> 0 \<Longrightarrow> depth < d \<Longrightarrow> cur \<notin> vis \<Longrightarrow> first_parent pm cur = None \<Longrightarrow>
     walk_from ns pm d cur depth vis = push_frame ns cur []"
  by (simp add: walk_from_def loop_root)

lemma walk_step:
  "cur \<ge> 0 \<Longrightarrow> depth < d \<Longrightarrow> cur \<notin> vis \<Longrightarrow> first_parent pm cur = Some p \<Longrightarrow>
     walk_from ns pm d cur depth vis
       = push_frame ns cur [] @ walk_from ns pm d p (Suc depth) (insert cur vis)"
proof -
  assume c: "cur \<ge> 0" "depth < d" "cur \<notin> vis" "first_parent pm cur = Some p"
  have "getCallStackUp_loop ns pm d cur depth vis []
          = getCallStackUp_loop ns pm d p (Suc depth) (insert cur vis) (push_frame ns cur [])"
    using c by (rule loop_step)
  also have "\<dots> = push_frame ns cur [] @ getCallStackUp_loop ns pm d p (Suc depth) (insert cur vis) []"
    using loop_append_all[of ns pm d p "Suc depth" "insert cur vis"] by (rule spec)
  finally show ?thesis by (simp only: walk_from_def)
qed

lemma getCallStackUp_walk: "getCallStackUp ns pm n d = walk_from ns pm d n 0 {}"
  by (simp add: getCallStackUp_def walk_from_def)

lemma index_frame_of: "index (frame_of ns cur) = cur"
  by (simp add: frame_of_def Let_def)

lemma push_frame_index: "index ` set (push_frame ns cur []) \<subseteq> {cur}"
  by (auto simp: push_frame_def frame_of_def Let_def)

lemma walk_fresh_distinct:
  "index ` set (walk_from ns pm d cur depth vis) \<inter> vis = {} \<and>
   distinct (map index (walk_from ns pm d cur depth vis))"
proof (induction cur depth vis rule: loop_induct[where pm = pm and d = d])
  case (step cur depth vis)
  show ?case
  proof (cases rule: loop_cases[where cur = cur and depth = depth and d = d and vis = vis and pm = pm])
    case stop
    then show ?thesis by (simp add: walk_stop)
  next
    case root
    then show ?thesis using push_frame_index[of ns cur] by (auto simp: walk_root push_frame_def)
  next
    case (step p)
    have eq: "walk_from ns pm d cur depth vis
                = push_frame ns cur [] @ walk_from ns pm d p (Suc depth) (insert cur vis)"
      using step by (rule walk_step)
    from step.IH[OF step] step(3) push_frame_index[of ns cur] show ?thesis
      unfolding eq by (auto simp: push_frame_def)
  qed
qed

lemma walk_length: "length (walk_from ns pm d cur depth vis) \<le> d - depth"
proof (induction cur depth vis rule: loop_induct[where pm = pm and d = d])
  case (step cur depth vis)
  show ?case
  proof (cases rule: loop_cases[where cur = cur and depth = depth and d = d and vis = vis and pm = pm])
    case stop
    then show ?thesis by (simp add: walk_stop)
  next
    case root
    then show ?thesis by (auto simp: walk_root push_frame_def)
  next
    case (step p)
    have eq: "walk_from ns pm d cur depth vis
                = push_frame ns cur [] @ walk_from ns pm d p (Suc depth) (insert cur vis)"
      using step by (rule walk_step)
    have "length (push_frame ns cur []) \<le> 1" by (simp add: push_frame_def)
    with step.IH[OF step] step(2) show ?thesis
      unfolding eq by simp
  qed
qed

lemma walk_in_range:
  "\<forall>f \<in> set (walk_from ns pm d cur depth vis).
     0 \<le> index f \<and> index f < int (length ns) \<and> f = frame_of ns (index f)"
proof (induction cur depth vis rule: loop_induct[where pm = pm and d = d])
  case (step cur depth vis)
  show ?case
  proof (cases rule: loop_cases[where cur = cur and depth = depth and d = d and vis = vis and pm = pm])
    case stop
    then show ?thesis by (simp add: walk_stop)
  next
    case root
    then show ?thesis by (auto simp: walk_root push_frame_def index_frame_of)
  next
    case (step p)
    have eq: "walk_from ns pm d cur depth vis
                = push_frame ns cur [] @ walk_from ns pm d p (Suc depth) (insert cur vis)"
      using step by (rule walk_step)
    from step.IH[OF step] step(1) show ?thesis
      unfolding eq by (auto simp: push_frame_def index_frame_of)
  qed
qed

lemma walk_prefix_mono:
  "d \<le> d' \<Longrightarrow> prefix (walk_from ns pm d cur depth vis) (walk_from ns pm d' cur depth vis)"
proof (induction cur depth vis rule: loop_induct[where pm = pm and d = d])
  case (step cur depth vis)
  show ?case
  proof (cases rule: loop_cases[where cur = cur and depth = depth and d = d and vis = vis and pm = pm])
    case stop
    then show ?thesis by (simp add: walk_stop)
  next
    case root
    then have "walk_from ns pm d' cur depth vis = push_frame ns cur []"
      using step.prems by (intro walk_root) auto
    with root show ?thesis by (simp add: walk_root)
  next
    case (step p)
    then have "walk_from ns pm d' cur depth vis
                 = push_frame ns cur [] @ walk_from ns pm d' p (Suc depth) (insert cur vis)"
      using step.prems by (intro walk_step) auto
    moreover have "walk_from ns pm d cur depth vis
                 = push_frame ns cur [] @ walk_from ns pm d p (Suc depth) (insert cur vis)"
      using step by (rule walk_step)
    ultimately show ?thesis using step.IH[OF step step.prems] by simp
  qed
qed

lemma walk_ordered:
  "successively (\<lambda>f g. (index f, index g) \<in> (first_parent_rel pm)\<^sup>+) (walk_from ns pm d cur depth vis) \<and>
   (\<forall>f \<in> set (walk_from ns pm d cur depth vis). (cur, index f) \<in> (first_parent_rel pm)\<^sup>*)"
proof (induction cur depth vis rule: loop_induct[where pm = pm and d = d])
  case (step cur depth vis)
  show ?case
  proof (cases rule: loop_cases[where cur = cur and depth = depth and d = d and vis = vis and pm = pm])
    case stop
    then show ?thesis by (simp add: walk_stop)
  next
    case root
    then show ?thesis by (auto simp: walk_root push_frame_def frame_of_def Let_def)
  next
    case (step p)
    let ?r = "walk_from ns pm d p (Suc depth) (insert cur vis)"
    let ?R = "\<lambda>f g. (index f, index g) \<in> (first_parent_rel pm)\<^sup>+"
    from step.IH[OF step] have s: "successively ?R ?r"
      and reach: "\<forall>f \<in> set ?r. (p, index f) \<in> (first_parent_rel pm)\<^sup>*" by auto
    have edge: "(cur, p) \<in> first_parent_rel pm" using step by (simp add: first_parent_rel_def)
    have reach': "\<forall>f \<in> set ?r. (cur, index f) \<in> (first_parent_rel pm)\<^sup>+"
      using reach edge by (auto intro: rtrancl_into_trancl2)
    have idx: "index (frame_of ns cur) = cur" by (simp add: frame_of_def Let_def)
    have "successively ?R (frame_of ns cur # ?r)"
      using s reach' idx by (cases ?r) auto
    moreover have "\<forall>f \<in> set (frame_of ns cur # ?r). (cur, index f) \<in> (first_parent_rel pm)\<^sup>*"
      using reach' idx by auto
    moreover have "\<forall>f \<in> set ?r. (cur, index f) \<in> (first_parent_rel pm)\<^sup>*"
      using reach' by auto
    moreover have "walk_from ns pm d cur depth vis = push_frame ns cur [] @ ?r"
      using step by (rule walk_step)
    ultimately show ?thesis using s by (simp add: push_frame_def)
  qed
qed

text \<open>
  A walk reads the parent map only at ids it has not visited, and every walk under a
  ceiling is the walk, under any higher ceiling, of a parent map cut where it stopped.
\<close>

lemma walk_cong:
  "(\<And>c. c \<notin> vis \<Longrightarrow> first_parent pm' c = first_parent pm c) \<Longrightarrow>
     walk_from ns pm' d cur depth vis = walk_from ns pm d cur depth vis"
proof (induction cur depth vis rule: loop_induct[where pm = pm and d = d])
  case (step cur depth vis)
  show ?case
  proof (cases rule: loop_cases[where cur = cur and depth = depth and d = d and vis = vis and pm = pm])
    case stop
    then show ?thesis by (simp add: walk_stop)
  next
    case root
    then have "first_parent pm' cur = None" using step.prems by simp
    with root show ?thesis by (simp add: walk_root)
  next
    case (step p)
    then have fp: "first_parent pm' cur = Some p" using step.prems by simp
    have "walk_from ns pm' d p (Suc depth) (insert cur vis)
            = walk_from ns pm d p (Suc depth) (insert cur vis)"
      using step step.prems by (intro step.IH) auto
    moreover have "walk_from ns pm d cur depth vis
            = push_frame ns cur [] @ walk_from ns pm d p (Suc depth) (insert cur vis)"
      using step by (rule walk_step)
    moreover have "walk_from ns pm' d cur depth vis
            = push_frame ns cur [] @ walk_from ns pm' d p (Suc depth) (insert cur vis)"
      using step(1-3) fp by (rule walk_step)
    ultimately show ?thesis by simp
  qed
qed

lemma first_parent_Cons:
  "first_parent ((a, [p]) # m) c = (if c = a then Some p else first_parent m c)"
  by (simp add: first_parent_def)

lemma first_parent_Nil: "first_parent [] c = None"
  by (simp add: first_parent_def)

lemma walk_cut:
  "depth < d \<Longrightarrow>
     \<exists>pm'. \<forall>k. walk_from ns pm' (d + k) cur depth vis = walk_from ns pm d cur depth vis"
proof (induction cur depth vis rule: loop_induct[where pm = pm and d = d])
  case (step cur depth vis)
  show ?case
  proof (cases rule: loop_cases[where cur = cur and depth = depth and d = d and vis = vis and pm = pm])
    case stop
    with step.prems have "\<not> (cur \<ge> 0 \<and> cur \<notin> vis)" by simp
    then have "\<forall>k. walk_from ns [] (d + k) cur depth vis = []"
      by (auto intro: walk_stop)
    with stop show ?thesis by (auto simp: walk_stop)
  next
    case root
    have "walk_from ns [] (d + k) cur depth vis = push_frame ns cur []" for k
      using root by (intro walk_root) (auto simp: first_parent_Nil)
    with root show ?thesis by (auto simp: walk_root)
  next
    case (step p)
    have orig: "walk_from ns pm d cur depth vis
            = push_frame ns cur [] @ walk_from ns pm d p (Suc depth) (insert cur vis)"
      using step by (rule walk_step)
    show ?thesis
    proof (cases "Suc depth < d")
      case False
      then have "walk_from ns pm d p (Suc depth) (insert cur vis) = []"
        by (intro walk_stop) simp
      moreover have "walk_from ns [] (d + k) cur depth vis = push_frame ns cur []" for k
        using step by (intro walk_root) (auto simp: first_parent_Nil)
      ultimately show ?thesis using orig by auto
    next
      case True
      from step.IH[OF step True] obtain pm1 where
        pm1: "\<And>k. walk_from ns pm1 (d + k) p (Suc depth) (insert cur vis)
                  = walk_from ns pm d p (Suc depth) (insert cur vis)"
        by auto
      let ?pm' = "(cur, [p]) # pm1"
      have "walk_from ns ?pm' (d + k) cur depth vis = walk_from ns pm d cur depth vis" for k
      proof -
        have "walk_from ns ?pm' (d + k) cur depth vis
               = push_frame ns cur [] @ walk_from ns ?pm' (d + k) p (Suc depth) (insert cur vis)"
          using step by (intro walk_step) (auto simp: first_parent_Cons)
        also have "walk_from ns ?pm' (d + k) p (Suc depth) (insert cur vis)
               = walk_from ns pm1 (d + k) p (Suc depth) (insert cur vis)"
          by (rule walk_cong) (simp add: first_parent_Cons)
        finally show ?thesis using pm1[of k] orig by simp
      qed
      then show ?thesis by blast
    qed
  qed
qed

subsection \<open>The descendant collection\<close>

declare collectDescendants.simps [simp del]

lemma collect_grows:
  "D \<subseteq> collectDescendants m n D"
  "D \<subseteq> for_children m cs D"
  by (induction m n D and m cs D rule: collectDescendants_for_children.induct)
     (auto simp: collectDescendants.simps)

lemma collect_sound:
  "collectDescendants m n D \<subseteq> D \<union> (child_edges m)\<^sup>+ `` {n}"
  "for_children m cs D \<subseteq> D \<union> (child_edges m)\<^sup>* `` set cs"
proof (induction m n D and m cs D rule: collectDescendants_for_children.induct)
  case (1 childMap nodeIndex descendants)
  have "(child_edges childMap)\<^sup>* `` set (map_get_list childMap nodeIndex)
          \<subseteq> (child_edges childMap)\<^sup>+ `` {nodeIndex}"
    by (auto simp: child_edges_def intro: rtrancl_into_trancl2)
  with 1 show ?case by (auto simp: collectDescendants.simps)
next
  case (2 childMap descendants)
  then show ?case by simp
next
  case (3 childMap child rest descendants)
  show ?case
  proof (cases "child \<in> descendants")
    case True
    with 3 show ?thesis by auto
  next
    case False
    let ?D1 = "collectDescendants childMap child (insert child descendants)"
    from False 3(1) have a: "?D1 \<subseteq> insert child descendants \<union> (child_edges childMap)\<^sup>+ `` {child}"
      by simp
    from False 3(2) have b: "for_children childMap rest ?D1 \<subseteq> ?D1 \<union> (child_edges childMap)\<^sup>* `` set rest"
      by simp
    have "(child_edges childMap)\<^sup>+ `` {child} \<subseteq> (child_edges childMap)\<^sup>* `` set (child # rest)"
      by (auto intro: trancl_into_rtrancl)
    with a b False show ?thesis by auto
  qed
qed

lemma collect_covers:
  "set (map_get_list m n) \<subseteq> collectDescendants m n D"
  "set cs \<subseteq> for_children m cs D"
proof (induction m n D and m cs D rule: collectDescendants_for_children.induct)
  case (1 childMap nodeIndex descendants)
  then show ?case by (simp add: collectDescendants.simps)
next
  case (2 childMap descendants)
  then show ?case by simp
next
  case (3 childMap child rest descendants)
  show ?case
  proof (cases "child \<in> descendants")
    case True
    with 3 collect_grows(2)[of descendants childMap rest] show ?thesis by auto
  next
    case False
    let ?D1 = "collectDescendants childMap child (insert child descendants)"
    have "child \<in> ?D1" using collect_grows(1)[of "insert child descendants" childMap child] by auto
    then have "child \<in> for_children childMap rest ?D1"
      using collect_grows(2)[of ?D1 childMap rest] by auto
    with False 3(2) show ?thesis by auto
  qed
qed

lemma collect_closed:
  "\<forall>x \<in> collectDescendants m n D - D. set (map_get_list m x) \<subseteq> collectDescendants m n D"
  "\<forall>x \<in> for_children m cs D - D. set (map_get_list m x) \<subseteq> for_children m cs D"
proof (induction m n D and m cs D rule: collectDescendants_for_children.induct)
  case (1 childMap nodeIndex descendants)
  then show ?case by (simp add: collectDescendants.simps)
next
  case (2 childMap descendants)
  then show ?case by simp
next
  case (3 childMap child rest descendants)
  show ?case
  proof (cases "child \<in> descendants")
    case True
    with 3 show ?thesis by simp
  next
    case False
    let ?D1 = "collectDescendants childMap child (insert child descendants)"
    let ?D2 = "for_children childMap rest ?D1"
    have mono: "?D1 \<subseteq> ?D2" by (rule collect_grows(2))
    have ih1: "\<forall>x \<in> ?D1 - insert child descendants. set (map_get_list childMap x) \<subseteq> ?D1"
      using False 3(1) by simp
    have ih2: "\<forall>x \<in> ?D2 - ?D1. set (map_get_list childMap x) \<subseteq> ?D2"
      using False 3(2) by simp
    have child: "set (map_get_list childMap child) \<subseteq> ?D1" by (rule collect_covers(1))
    have "\<forall>x \<in> ?D2 - descendants. set (map_get_list childMap x) \<subseteq> ?D2"
    proof
      fix x assume x: "x \<in> ?D2 - descendants"
      show "set (map_get_list childMap x) \<subseteq> ?D2"
      proof (cases "x \<in> ?D1")
        case False
        with x ih2 show ?thesis by blast
      next
        case True
        show ?thesis
        proof (cases "x = child")
          case True
          with child mono show ?thesis by blast
        next
          case False
          with True x ih1 mono show ?thesis by blast
        qed
      qed
    qed
    with False show ?thesis by simp
  qed
qed

lemma descendants_of_closure: "descendants_of m n = (child_edges m)\<^sup>+ `` {n}"
proof
  show "descendants_of m n \<subseteq> (child_edges m)\<^sup>+ `` {n}"
    using collect_sound(1)[of m n "{}"] by (simp add: descendants_of_def)
next
  let ?D = "descendants_of m n"
  have closed: "\<And>x y. x \<in> ?D \<Longrightarrow> (x, y) \<in> child_edges m \<Longrightarrow> y \<in> ?D"
    using collect_closed(1)[of m n "{}"] by (auto simp: descendants_of_def child_edges_def)
  have first: "\<And>y. (n, y) \<in> child_edges m \<Longrightarrow> y \<in> ?D"
    using collect_covers(1)[of m n "{}"] by (auto simp: descendants_of_def child_edges_def)
  have "(n, y) \<in> (child_edges m)\<^sup>+ \<Longrightarrow> y \<in> ?D" for y
    by (induction rule: trancl_induct) (auto intro: first closed)
  then show "(child_edges m)\<^sup>+ `` {n} \<subseteq> ?D" by auto
qed

lemma child_edges_listed: "(a, b) \<in> (child_edges m)\<^sup>+ \<Longrightarrow> b \<in> listed_children m"
proof (induction rule: trancl_induct)
  case (base y)
  then show ?case using map_get_list_listed[of m a] by (auto simp: child_edges_def)
next
  case (step y z)
  then show ?case using map_get_list_listed[of m y] by (auto simp: child_edges_def)
qed

lemma finite_descendants_of: "finite (descendants_of m n)"
proof (rule finite_subset)
  show "descendants_of m n \<subseteq> listed_children m"
    by (auto simp: descendants_of_closure dest: child_edges_listed)
  show "finite (listed_children m)" by (rule finite_listed_children)
qed

subsection \<open>The descendant collection on a call stack with a limit\<close>

text \<open>
  Where the recursion returns it returns what the recursion without a limit does; it
  returns when the call stack has room for one activation more than there are listed
  children, since every nested activation has put a new id into the set; and on a chain
  longer than the room left it raises \<^verbatim>\<open>RangeError\<close>.
\<close>

lemma stack_agrees:
  "collectDescendants_stack frames m n D = Inr R \<Longrightarrow> R = collectDescendants m n D"
  "for_children_stack frames m cs D = Inr R \<Longrightarrow> R = for_children m cs D"
proof (induction frames m n D and frames m cs D arbitrary: R and R
    rule: collectDescendants_stack_for_children_stack.induct)
  case (1 childMap nodeIndex descendants)
  then show ?case by simp
next
  case (2 frames childMap nodeIndex descendants)
  then show ?case by (simp add: collectDescendants.simps)
next
  case (3 frames childMap descendants)
  then show ?case by simp
next
  case (4 frames childMap child rest descendants)
  show ?case
  proof (cases "child \<in> descendants")
    case True
    with 4 show ?thesis by simp
  next
    case False
    from False "4.prems" obtain D1 where
      d1: "collectDescendants_stack frames childMap child (insert child descendants) = Inr D1"
      and r: "for_children_stack frames childMap rest D1 = Inr R"
      by (auto split: sum.splits)
    from "4.IH"(1)[OF False d1] have "D1 = collectDescendants childMap child (insert child descendants)" .
    moreover from "4.IH"(2)[OF False d1 r] have "R = for_children childMap rest D1" .
    ultimately show ?thesis using False by simp
  qed
qed

lemma stack_enough:
  "card (listed_children m - D) < frames \<Longrightarrow>
     collectDescendants_stack frames m n D = Inr (collectDescendants m n D)"
  "set cs \<subseteq> listed_children m \<Longrightarrow> card (listed_children m - D) \<le> frames \<Longrightarrow>
     for_children_stack frames m cs D = Inr (for_children m cs D)"
proof (induction frames m n D and frames m cs D
    rule: collectDescendants_stack_for_children_stack.induct)
  case (1 childMap nodeIndex descendants)
  then show ?case by simp
next
  case (2 frames childMap nodeIndex descendants)
  then show ?case using map_get_list_listed[of childMap nodeIndex]
    by (simp add: collectDescendants.simps)
next
  case (3 frames childMap descendants)
  then show ?case by simp
next
  case (4 frames childMap child rest descendants)
  show ?case
  proof (cases "child \<in> descendants")
    case True
    with 4 show ?thesis by simp
  next
    case False
    let ?D1 = "collectDescendants childMap child (insert child descendants)"
    from "4.prems" False have
      "listed_children childMap - insert child descendants \<subset> listed_children childMap - descendants"
      by auto
    then have "card (listed_children childMap - insert child descendants)
                 < card (listed_children childMap - descendants)"
      by (intro psubset_card_mono) (auto simp: finite_listed_children)
    with "4.prems" have "card (listed_children childMap - insert child descendants) < frames"
      by simp
    from "4.IH"(1)[OF False this]
    have d1: "collectDescendants_stack frames childMap child (insert child descendants) = Inr ?D1" .
    have "descendants \<subseteq> ?D1"
      using collect_grows(1)[of "insert child descendants" childMap child] by auto
    then have "card (listed_children childMap - ?D1) \<le> card (listed_children childMap - descendants)"
      by (intro card_mono) (auto simp: finite_listed_children)
    with "4.prems" have le: "card (listed_children childMap - ?D1) \<le> frames" by simp
    from "4.prems" have sub: "set rest \<subseteq> listed_children childMap" by simp
    from "4.IH"(2)[OF False d1 sub le] d1 False show ?thesis by simp
  qed
qed

lemma descendants_stack_cases:
  "descendants_stack stackLimit m n = Inr (descendants_of m n)
   \<or> descendants_stack stackLimit m n = Inl RangeError"
proof (cases "descendants_stack stackLimit m n")
  case (Inl e)
  then show ?thesis by (cases e) simp
next
  case (Inr R)
  then show ?thesis
    using stack_agrees(1)[of stackLimit m n "{}" R]
    by (simp add: descendants_stack_def descendants_of_def)
qed

lemma descendants_stack_enough:
  "card (listed_children m) < stackLimit \<Longrightarrow>
     descendants_stack stackLimit m n = Inr (descendants_of m n)"
  using stack_enough(1)[of m "{}" stackLimit n]
  by (simp add: descendants_stack_def descendants_of_def)

lemma chain_of_children:
  "i < k \<Longrightarrow> map_get_list (snd (buildNodeTree (chain_of k))) (int i) = [int i + 1]"
  "map_get_list (snd (buildNodeTree (chain_of k))) (int k) = []"
proof -
  have len: "length (chain_of k) = Suc k" by (simp add: chain_of_def)
  show "i < k \<Longrightarrow> map_get_list (snd (buildNodeTree (chain_of k))) (int i) = [int i + 1]"
    using buildNodeTree_children[of i "chain_of k"] len
    by (simp add: chain_of_def nth_append example_node_def)
  show "map_get_list (snd (buildNodeTree (chain_of k))) (int k) = []"
    using buildNodeTree_children[of k "chain_of k"] len
    by (simp add: chain_of_def nth_append example_node_def)
qed

lemma chain_overflows:
  "frames \<le> k - i \<Longrightarrow> \<forall>j>i. int j \<notin> D \<Longrightarrow>
     collectDescendants_stack frames (snd (buildNodeTree (chain_of k))) (int i) D = Inl RangeError"
proof (induction frames arbitrary: i D)
  case 0
  then show ?case by simp
next
  case (Suc frames)
  then have ik: "i < k" by simp
  have eq: "int i + 1 = int (Suc i)" by simp
  have fresh: "int (Suc i) \<notin> D" using Suc.prems(2) by blast
  have deeper: "collectDescendants_stack frames (snd (buildNodeTree (chain_of k))) (int (Suc i))
          (insert (int (Suc i)) D) = Inl RangeError"
    using Suc.prems by (intro Suc.IH) auto
  have "map_get_list (snd (buildNodeTree (chain_of k))) (int i) = [int (Suc i)]"
    using chain_of_children(1)[OF ik] eq by simp
  then show ?case using fresh deeper by (simp del: of_nat_Suc)
qed

subsection \<open>The ranking\<close>

lemma ranked_before_iff:
  "ranked_before a b = (count b < count a \<or> (count a = count b \<and> totalTime b \<le> totalTime a))"
  by (auto simp: ranked_before_def compare_entries_def)

lemma ranked_before_trans: "ranked_before a b \<Longrightarrow> ranked_before b c \<Longrightarrow> ranked_before a c"
  by (auto simp: ranked_before_iff)

lemma ranked_before_total: "\<not> ranked_before a b \<Longrightarrow> ranked_before b a"
  by (auto simp: ranked_before_iff)

lemma sorted_insert_by:
  "sorted_wrt ranked_before xs \<Longrightarrow> sorted_wrt ranked_before (insert_by compare_entries a xs)"
proof (induction xs)
  case Nil
  then show ?case by simp
next
  case (Cons b bs)
  show ?case
  proof (cases "compare_entries a b \<le> 0")
    case True
    then have ab: "ranked_before a b" by (simp add: ranked_before_def)
    with Cons.prems have "\<forall>y \<in> set bs. ranked_before a y"
      by (auto intro: ranked_before_trans)
    with True ab Cons.prems show ?thesis by simp
  next
    case False
    then have "\<not> ranked_before a b" by (simp add: ranked_before_def)
    then have "ranked_before b a" by (rule ranked_before_total)
    with False Cons show ?thesis by (auto simp: set_insert_by)
  qed
qed

lemma sorted_sort_by: "sorted_wrt ranked_before (sort_by compare_entries xs)"
  unfolding sort_by_def by (induction xs) (auto intro: sorted_insert_by)

lemma sorted_head_max:
  assumes "sorted_wrt ranked_before (e # es)"
  shows "Max (count ` set (e # es)) = count e"
proof (rule Max_eqI)
  show "finite (count ` set (e # es))" by simp
  show "count e \<in> count ` set (e # es)" by simp
  fix y assume "y \<in> count ` set (e # es)"
  then obtain x where x: "x \<in> set (e # es)" and y: "y = count x" by auto
  show "y \<le> count e"
  proof (cases "x = e")
    case True
    with y show ?thesis by simp
  next
    case False
    with x assms have "ranked_before e x" by auto
    with y show ?thesis by (auto simp: ranked_before_iff)
  qed
qed

lemma maxCount_of_aggregate:
  assumes "aggregateCallStacks css \<noteq> []"
  shows "maxCount_of (aggregateCallStacks css) = Max (count ` set (aggregateCallStacks css))"
proof -
  from assms obtain e es where agg: "aggregateCallStacks css = e # es"
    by (cases "aggregateCallStacks css") auto
  have "sorted_wrt ranked_before (e # es)"
    using sorted_sort_by[of "map snd (stackMap_of css)"] agg by (simp add: aggregateCallStacks_def)
  then have m: "Max (count ` set (e # es)) = count e" by (rule sorted_head_max)
  have "\<forall>x \<in> snd ` set (stackMap_of css). entry_ok x"
    unfolding stackMap_of_def by (rule fold_aggregate_ok) simp
  then have "entry_ok e" using agg
    by (metis aggregateCallStacks_def list.set_intros(1) set_map set_sort_by)
  then have "count e \<noteq> 0" by (auto simp: entry_ok_def)
  with m agg show ?thesis by (simp add: maxCount_of_def)
qed

section \<open>The claims\<close>

text \<open>
  C1 on the scenario profile with the target A (node 1): the walk from a sample at B is
  B, A, root, so the callers of A are the one frame root. The code aggregates the two
  samples at B under the frame A, the target itself, and the sample at A under no frame
  at all; root is in neither.
\<close>

theorem scenario_target_A_callers:
  "map func (getCallStackUp (nodes scenario) (fst (buildNodeTree (nodes scenario))) 2 defaultMaxDepth)
     = [''B'', ''A'', ''root'']
   \<and> map sampleIndex (buildCallStack scenario 1) = [0, 1, 2]
   \<and> map (map func \<circ> callers) (aggregateCallStacks (buildCallStack scenario 1)) = [[''A''], []]
   \<and> map count (aggregateCallStacks (buildCallStack scenario 1)) = [2, 1]"
  by code_simp

text \<open>
  C2, as the code has it: in the scenario profile the sample at node 1 (A) does not
  qualify for the target B, whose frame is not in the walk from A; the two samples at node
  2 qualify, and the one aggregated entry has count 2 and total time 500.
\<close>

theorem scenario_target_B:
  "map sampleIndex (buildCallStack scenario 2) = [1, 2]
   \<and> map count (aggregateCallStacks (buildCallStack scenario 2)) = [2]
   \<and> map totalTime (aggregateCallStacks (buildCallStack scenario 2)) = [500]"
  by code_simp

text \<open>C2 as stated fails: there are not 3 qualifying samples, and no entry of count 3.\<close>

theorem scenario_target_B_counterexample:
  "\<not> (length (buildCallStack scenario 2) = 3
      \<and> map count (aggregateCallStacks (buildCallStack scenario 2)) = [3]
      \<and> map totalTime (aggregateCallStacks (buildCallStack scenario 2)) = [600]
      \<and> map (map func \<circ> callers) (aggregateCallStacks (buildCallStack scenario 2))
          = [[''root'', ''A'']])"
proof -
  have "length (buildCallStack scenario 2) = 2" by code_simp
  then show ?thesis by simp
qed


text \<open>
  C4, as the code has it: a walk that reaches the depth ceiling before a root returns the
  frames reached so far, at most \<open>maxDepth\<close> of them and a prefix of what any higher
  ceiling gives. The result is used as it is and carries no mark of the truncation: the
  same frames are the result of a walk, in a graph cut where the walk stopped, that no
  ceiling truncates.
\<close>

theorem truncated_walk_unmarked:
  "maxDepth \<le> maxDepth' \<Longrightarrow> 0 < maxDepth \<Longrightarrow>
     prefix (getCallStackUp ns parentMap n maxDepth) (getCallStackUp ns parentMap n maxDepth')
     \<and> length (getCallStackUp ns parentMap n maxDepth) \<le> maxDepth
     \<and> (\<exists>parentMap'. \<forall>k. getCallStackUp ns parentMap' n (maxDepth + k)
                              = getCallStackUp ns parentMap n maxDepth)"
  using walk_prefix_mono[of maxDepth maxDepth' ns parentMap n 0 "{}"]
    walk_length[of ns parentMap maxDepth n 0 "{}"]
    walk_cut[of 0 maxDepth ns n "{}" parentMap]
  by (simp add: getCallStackUp_walk)

theorem truncated_walk_unmarked_witness:
  "(20 :: nat) \<le> 22 \<and> (0 :: nat) < 20
   \<and> prefix (getCallStackUp chain_nodes (fst (buildNodeTree chain_nodes)) 21 20)
        (getCallStackUp chain_nodes (fst (buildNodeTree chain_nodes)) 21 22)
   \<and> length (getCallStackUp chain_nodes (fst (buildNodeTree chain_nodes)) 21 20) \<le> 20
   \<and> (\<exists>parentMap'. \<forall>k. getCallStackUp chain_nodes parentMap' 21 (20 + k)
                            = getCallStackUp chain_nodes (fst (buildNodeTree chain_nodes)) 21 20)"
  using truncated_walk_unmarked[of 20 22 chain_nodes "fst (buildNodeTree chain_nodes)" 21]
  by simp

text \<open>
  C4 as stated fails. In \<open>chain_profile\<close> the walk from node 21 stops at the ceiling of 20
  frames with node 2 outermost, which has a parent; in \<open>cut_profile\<close> the walk reaches the
  root 2. Both give the same aggregated entries for the target 2.
\<close>

theorem truncation_unmarked_counterexample:
  "length (getCallStackUp (nodes chain_profile) (fst (buildNodeTree (nodes chain_profile))) 21
             defaultMaxDepth) = 20 \<and>
   index (last (getCallStackUp (nodes chain_profile) (fst (buildNodeTree (nodes chain_profile))) 21
             defaultMaxDepth)) = 2 \<and>
   map_of (fst (buildNodeTree (nodes chain_profile))) 2 = Some [1] \<and>
   index (last (getCallStackUp (nodes cut_profile) (fst (buildNodeTree (nodes cut_profile))) 21
             defaultMaxDepth)) = 2 \<and>
   map_of (fst (buildNodeTree (nodes cut_profile))) 2 = None \<and>
   length (aggregateCallStacks (buildCallStack chain_profile 2)) = 1 \<and>
   aggregateCallStacks (buildCallStack chain_profile 2)
     = aggregateCallStacks (buildCallStack cut_profile 2)"
  by code_simp

text \<open>
  C5, as the code has it: the percentage printed for an aggregated entry is the entry's
  sample count divided by the largest count of all aggregated entries of the target (the
  count of the first entry of the ranking, \<^verbatim>\<open>maxCount\<close>), times 100.
\<close>

theorem percentage_relative_to_top_count:
  "(e, pct) \<in> set (reported_entries profile t topN) \<Longrightarrow>
     e \<in> set (aggregateCallStacks (buildCallStack profile t)) \<and>
     pct = of_nat (count e)
           / of_nat (Max (count ` set (aggregateCallStacks (buildCallStack profile t)))) * 100"
proof -
  assume a: "(e, pct) \<in> set (reported_entries profile t topN)"
  let ?agg = "aggregateCallStacks (buildCallStack profile t)"
  from a have mem: "e \<in> set (take (nat (min topN (int (length ?agg)))) ?agg)"
    and pct: "pct = percentage e (maxCount_of ?agg)"
    by (auto simp: reported_entries_def Let_def)
  from mem have e: "e \<in> set ?agg" by (rule in_set_takeD)
  then have "?agg \<noteq> []" by auto
  then have "maxCount_of ?agg = Max (count ` set ?agg)" by (rule maxCount_of_aggregate)
  with e pct show ?thesis by (simp add: percentage_def)
qed

theorem percentage_relative_to_top_count_witness:
  "(\<lparr> callers = [], count = 1, totalTime = 100, entry_samples = [100] \<rparr>, 50)
     \<in> set (reported_entries scenario 1 20) \<and>
   (50 :: rat) = of_nat (count \<lparr> callers = [], count = 1, totalTime = 100, entry_samples = [100] \<rparr>)
           / of_nat (Max (count ` set (aggregateCallStacks (buildCallStack scenario 1)))) * 100"
proof -
  have mem: "(\<lparr> callers = [], count = 1, totalTime = 100, entry_samples = [100] \<rparr>, 50)
     \<in> set (reported_entries scenario 1 20)"
    by code_simp
  from percentage_relative_to_top_count[OF mem] mem show ?thesis by simp
qed

text \<open>
  C5 as stated fails: with two entries of 2 and 1 samples the report prints 100 and 50,
  where the shares of the 3 qualifying samples are 200/3 and 100/3.
\<close>

theorem percentage_not_of_total_counterexample:
  "map snd (reported_entries scenario 1 20) = [100, 50] \<and>
   map (\<lambda>e. of_nat (count e) / of_nat (totalSamples (aggregateCallStacks (buildCallStack scenario 1))) * 100)
       (map fst (reported_entries scenario 1 20)) = [200 / 3, 100 / (3 :: rat)]"
  by code_simp

text \<open>
  C6: for every node table and parent map (cycles and self-references included) and every
  starting id, \<^verbatim>\<open>getCallStackUp\<close> returns (the function is total) a list of frames with
  no node id twice and at most \<open>maxDepth\<close> frames, innermost first: every frame is
  reached from the frame before it by first-parent steps, and the first frame is the given
  node when that is in range (and \<open>maxDepth\<close> is not 0).
\<close>

theorem getCallStackUp_distinct_bounded:
  "distinct (map index (getCallStackUp ns parentMap n maxDepth))
   \<and> length (getCallStackUp ns parentMap n maxDepth) \<le> maxDepth
   \<and> successively (\<lambda>f g. (index f, index g) \<in> (first_parent_rel parentMap)\<^sup>+)
        (getCallStackUp ns parentMap n maxDepth)
   \<and> (0 \<le> n \<and> n < int (length ns) \<and> 0 < maxDepth \<longrightarrow>
        take 1 (getCallStackUp ns parentMap n maxDepth) = [frame_of ns n])"
proof -
  have first: "take 1 (getCallStackUp ns parentMap n maxDepth) = [frame_of ns n]"
    if "0 \<le> n" "n < int (length ns)" "0 < maxDepth"
  proof (cases rule: loop_cases[where cur = n and depth = 0 and d = maxDepth and vis = "{}"
        and pm = parentMap])
    case stop
    with that show ?thesis by simp
  next
    case root
    then have "getCallStackUp ns parentMap n maxDepth = push_frame ns n []"
      unfolding getCallStackUp_walk by (rule walk_root)
    with that show ?thesis by (simp add: push_frame_def)
  next
    case (step p)
    then have "getCallStackUp ns parentMap n maxDepth
                 = push_frame ns n [] @ walk_from ns parentMap maxDepth p (Suc 0) (insert n {})"
      unfolding getCallStackUp_walk by (rule walk_step)
    with that show ?thesis by (simp add: push_frame_def)
  qed
  show ?thesis
    using walk_fresh_distinct[of ns parentMap maxDepth n 0 "{}"]
      walk_length[of ns parentMap maxDepth n 0 "{}"]
      walk_ordered[of parentMap ns maxDepth n 0 "{}"] first
    by (simp add: getCallStackUp_walk)
qed

theorem getCallStackUp_distinct_bounded_witness:
  "(0 :: int) \<le> 1 \<and> 1 < int (length cyclic_nodes) \<and> (0 :: nat) < 20
   \<and> take 1 (getCallStackUp cyclic_nodes (fst (buildNodeTree cyclic_nodes)) 1 20)
       = [frame_of cyclic_nodes 1]
   \<and> map index (getCallStackUp cyclic_nodes (fst (buildNodeTree cyclic_nodes)) 1 20) = [1, 0]
   \<and> distinct (map index (getCallStackUp cyclic_nodes (fst (buildNodeTree cyclic_nodes)) 1 20))
   \<and> length (getCallStackUp cyclic_nodes (fst (buildNodeTree cyclic_nodes)) 1 20) \<le> 20"
proof -
  have h: "(0 :: int) \<le> 1 \<and> 1 < int (length cyclic_nodes) \<and> (0 :: nat) < 20"
    by (simp add: cyclic_nodes_def)
  have v: "map index (getCallStackUp cyclic_nodes (fst (buildNodeTree cyclic_nodes)) 1 20) = [1, 0]"
    by code_simp
  from getCallStackUp_distinct_bounded[of cyclic_nodes "fst (buildNodeTree cyclic_nodes)" 1 20] h v
  show ?thesis by blast
qed

text \<open>
  C7: for every node table, the child map of \<^verbatim>\<open>buildNodeTree\<close> lists \<open>c\<close> under \<open>i\<close>
  exactly when \<open>i\<close> is a node index and \<open>c\<close> is in that node's children, and the parent
  map lists \<open>i\<close> under \<open>c\<close> in exactly the same case: each child edge has its matching
  parent edge, and there are no other edges.
\<close>

theorem buildNodeTree_edges:
  "(c \<in> set (map_get_list (snd (buildNodeTree ns)) i))
     = (0 \<le> i \<and> i < int (length ns) \<and> c \<in> set (children (ns ! nat i)))
   \<and> (i \<in> set (map_get_list (fst (buildNodeTree ns)) c))
     = (c \<in> set (map_get_list (snd (buildNodeTree ns)) i))"
  by (simp add: buildNodeTree_child_set buildNodeTree_parent_set)

text \<open>
  C8, as the code has it: \<^verbatim>\<open>collectDescendants\<close>, started with the empty set, either
  returns the set of the ids reachable from \<open>n\<close> through one or more child edges or
  raises \<^verbatim>\<open>RangeError\<close>. It returns that set whenever the call stack has room for one
  activation more than there are ids listed as children, on graphs with cycles too, and
  the empty set for a node without children (given room for one activation). The set is
  finite, and \<open>n\<close> itself is in it exactly when \<open>n\<close> is reachable from itself.
\<close>

theorem collectDescendants_stack_closure:
  "(descendants_stack stackLimit childMap n = Inr ((child_edges childMap)\<^sup>+ `` {n})
      \<or> descendants_stack stackLimit childMap n = Inl RangeError)
   \<and> (card (listed_children childMap) < stackLimit \<longrightarrow>
        descendants_stack stackLimit childMap n = Inr ((child_edges childMap)\<^sup>+ `` {n}))
   \<and> (0 < stackLimit \<and> map_get_list childMap n = [] \<longrightarrow>
        descendants_stack stackLimit childMap n = Inr {})
   \<and> finite ((child_edges childMap)\<^sup>+ `` {n})
   \<and> (n \<in> (child_edges childMap)\<^sup>+ `` {n}) = ((n, n) \<in> (child_edges childMap)\<^sup>+)"
proof -
  have empty: "descendants_stack stackLimit childMap n = Inr {}"
    if "0 < stackLimit" "map_get_list childMap n = []"
    using that by (cases stackLimit) (simp_all add: descendants_stack_def)
  show ?thesis
    using descendants_stack_cases[of stackLimit childMap n]
      descendants_stack_enough[of childMap stackLimit n]
      finite_descendants_of[of childMap n] empty
    by (auto simp: descendants_of_closure)
qed

theorem collectDescendants_stack_closure_witness:
  "card (listed_children (snd (buildNodeTree cyclic_nodes))) < 3
   \<and> descendants_stack 3 (snd (buildNodeTree cyclic_nodes)) 0
       = Inr ((child_edges (snd (buildNodeTree cyclic_nodes)))\<^sup>+ `` {0})
   \<and> descendants_stack 3 (snd (buildNodeTree cyclic_nodes)) 0 = Inr {0, 1}
   \<and> (0 :: nat) < 3 \<and> map_get_list (snd (buildNodeTree (nodes scenario))) 2 = []
   \<and> descendants_stack 3 (snd (buildNodeTree (nodes scenario))) 2 = Inr {}"
proof -
  have h1: "card (listed_children (snd (buildNodeTree cyclic_nodes))) < 3"
    by code_simp
  have v: "descendants_stack 3 (snd (buildNodeTree cyclic_nodes)) 0 = Inr {0, 1}"
    by code_simp
  have h2: "(0 :: nat) < 3 \<and> map_get_list (snd (buildNodeTree (nodes scenario))) 2 = []"
    by code_simp
  from collectDescendants_stack_closure[of 3 "snd (buildNodeTree cyclic_nodes)" 0]
    collectDescendants_stack_closure[of 3 "snd (buildNodeTree (nodes scenario))" 2] h1 h2 v
  show ?thesis by simp
qed

text \<open>
  C8 as stated fails: the recursion nests once for each level of the graph, so on a chain
  of 10001 nodes a call stack with room for 10000 activations overflows and the call
  raises \<^verbatim>\<open>RangeError\<close> instead of returning a set. The same holds at any limit, for
  the chain one node longer (lemma \<open>chain_overflows\<close>).
\<close>

theorem stack_overflow_counterexample:
  "descendants_stack 10000 (snd (buildNodeTree (chain_of 10000))) 0 = Inl RangeError"
  using chain_overflows[of 10000 10000 0 "{}"] by (simp add: descendants_stack_def)

text \<open>
  C9, as the code has it: the index records an edge to any child id, in range or not; a
  walk never faults on such an id, since every frame it pushes is of an in-range node. A
  walk at a negative id ends at once with no frame, a dead end even where the id has a
  recorded parent. A walk at an id at or beyond the end of the node table pushes no frame
  for it and goes on to the id's first recorded parent, ending there only when the id has
  none.
\<close>

theorem out_of_range_id_no_frame:
  "(\<forall>f \<in> set (getCallStackUp ns parentMap n maxDepth). 0 \<le> index f \<and> index f < int (length ns))
   \<and> (n < 0 \<longrightarrow> getCallStackUp ns parentMap n maxDepth = [])
   \<and> (int (length ns) \<le> n \<and> 0 < maxDepth \<longrightarrow>
        getCallStackUp ns parentMap n maxDepth
          = (case first_parent parentMap n of
               None \<Rightarrow> []
             | Some p \<Rightarrow> getCallStackUp_loop ns parentMap maxDepth p 1 {n} []))
   \<and> (i < length ns \<and> c \<in> set (children (ns ! i)) \<longrightarrow>
        int i \<in> set (map_get_list (fst (buildNodeTree ns)) c))"
proof -
  have a: "\<forall>f \<in> set (getCallStackUp ns parentMap n maxDepth). 0 \<le> index f \<and> index f < int (length ns)"
    using walk_in_range[of ns parentMap maxDepth n 0 "{}"] by (simp add: getCallStackUp_walk)
  have neg: "getCallStackUp ns parentMap n maxDepth = []" if "n < 0"
    using that unfolding getCallStackUp_def by (intro loop_stop) simp
  have b: "getCallStackUp ns parentMap n maxDepth
          = (case first_parent parentMap n of
               None \<Rightarrow> []
             | Some p \<Rightarrow> getCallStackUp_loop ns parentMap maxDepth p 1 {n} [])"
    if "int (length ns) \<le> n" "0 < maxDepth"
    using that unfolding getCallStackUp_def
    by (subst loop_unfold) (auto simp: push_frame_def split: option.splits)
  have c: "int i \<in> set (map_get_list (fst (buildNodeTree ns)) c)"
    if "i < length ns" "c \<in> set (children (ns ! i))"
    using that by (simp add: buildNodeTree_parent_set)
  from a neg b c show ?thesis by blast
qed

theorem out_of_range_id_no_frame_witness:
  "int (length dangling_nodes) \<le> 5 \<and> (0 :: nat) < 20
   \<and> getCallStackUp dangling_nodes (fst (buildNodeTree dangling_nodes)) 5 20
       = (case first_parent (fst (buildNodeTree dangling_nodes)) 5 of
            None \<Rightarrow> []
          | Some p \<Rightarrow> getCallStackUp_loop dangling_nodes (fst (buildNodeTree dangling_nodes)) 20 p 1 {5} [])
   \<and> 0 < length dangling_nodes \<and> 5 \<in> set (children (dangling_nodes ! 0))
   \<and> int 0 \<in> set (map_get_list (fst (buildNodeTree dangling_nodes)) 5)
   \<and> frame_of dangling_nodes 0
        \<in> set (getCallStackUp dangling_nodes (fst (buildNodeTree dangling_nodes)) 5 20)
   \<and> 0 \<le> index (frame_of dangling_nodes 0)
   \<and> index (frame_of dangling_nodes 0) < int (length dangling_nodes)
   \<and> (- 1 :: int) < 0
   \<and> first_parent (fst (buildNodeTree negative_child_nodes)) (- 1) = Some 0
   \<and> getCallStackUp negative_child_nodes (fst (buildNodeTree negative_child_nodes)) (- 1) 20 = []"
proof -
  have h1: "int (length dangling_nodes) \<le> 5 \<and> (0 :: nat) < 20"
    by (simp add: dangling_nodes_def)
  have h2: "0 < length dangling_nodes \<and> 5 \<in> set (children (dangling_nodes ! 0))"
    by (simp add: dangling_nodes_def example_node_def)
  have h3: "frame_of dangling_nodes 0
        \<in> set (getCallStackUp dangling_nodes (fst (buildNodeTree dangling_nodes)) 5 20)"
    by code_simp
  have h4: "(- 1 :: int) < 0" by simp
  have h5: "first_parent (fst (buildNodeTree negative_child_nodes)) (- 1) = Some 0"
    by code_simp
  from out_of_range_id_no_frame[of dangling_nodes "fst (buildNodeTree dangling_nodes)" 5 20 0 5]
    out_of_range_id_no_frame[of negative_child_nodes "fst (buildNodeTree negative_child_nodes)" "- 1" 20]
    h1 h2 h3 h4 h5
  show ?thesis by blast
qed

text \<open>
  C9 as stated fails: the walk from the out-of-range id 5, a child of node 0, is not a
  dead end; it goes on to node 0 and returns its frame.
\<close>

theorem out_of_range_not_dead_end_counterexample:
  "\<not> 5 < int (length dangling_nodes)
   \<and> 5 \<in> set (children (dangling_nodes ! 0))
   \<and> getCallStackUp dangling_nodes (fst (buildNodeTree dangling_nodes)) 5 defaultMaxDepth
       = [frame_of dangling_nodes 0]"
  by code_simp

text \<open>
  C10: every entry in the output of \<^verbatim>\<open>aggregateCallStacks\<close>, for any list of call stacks,
  has a count equal to the length of its per-sample cost list, a total time equal to the
  sum of that list, and a count of at least 1.
\<close>

theorem aggregate_entries_invariant:
  "\<forall>e \<in> set (aggregateCallStacks callStacks).
     count e = length (entry_samples e) \<and> totalTime e = sum_list (entry_samples e) \<and> 1 \<le> count e"
proof -
  have "\<forall>e \<in> snd ` set (stackMap_of callStacks). entry_ok e"
    unfolding stackMap_of_def by (rule fold_aggregate_ok) simp
  then show ?thesis
    by (auto simp: aggregateCallStacks_def set_sort_by entry_ok_def)
qed

theorem aggregate_entries_invariant_witness:
  "\<lparr> callers = [], count = 2, totalTime = 500, entry_samples = [200, 300] \<rparr>
     \<in> set (aggregateCallStacks (buildCallStack scenario 2)) \<and>
   count \<lparr> callers = [], count = 2, totalTime = 500, entry_samples = [200, 300] \<rparr>
     = length (entry_samples \<lparr> callers = [], count = 2, totalTime = 500, entry_samples = [200, 300] \<rparr>) \<and>
   totalTime \<lparr> callers = [], count = 2, totalTime = 500, entry_samples = [200, 300] \<rparr>
     = sum_list (entry_samples \<lparr> callers = [], count = 2, totalTime = 500, entry_samples = [200, 300] \<rparr>) \<and>
   1 \<le> count \<lparr> callers = [], count = 2, totalTime = 500, entry_samples = [200, 300] \<rparr>"
proof -
  have mem: "\<lparr> callers = [], count = 2, totalTime = 500, entry_samples = [200, 300] \<rparr>
               \<in> set (aggregateCallStacks (buildCallStack scenario 2))"
    by code_simp
  from aggregate_entries_invariant[of "buildCallStack scenario 2"] mem show ?thesis
    by blast
qed

end
